theory Spec2Isabelle
  imports Main
begin

section \<open>RichConsole: control codes, styles, sheets and rich strings\<close>

text \<open>
  A shallow embedding of \<^verbatim>\<open>src/RichConsole.py\<close>. Python tuples of ints are
  \<open>int list\<close>, strings are \<open>string\<close>, insertion-ordered dicts are association lists,
  and every exception the modelled code can raise is a value of \<open>error\<close>.
\<close>

datatype error = TypeError | AttributeError

subsection \<open>Decimal rendering of integers (Python's \<^verbatim>\<open>str(int)\<close>)\<close>

definition digit_char :: "nat \<Rightarrow> char" where
  "digit_char d = ''0123456789'' ! (d mod 10)"

fun str_nat :: "nat \<Rightarrow> string" where
  "str_nat n = (if n < 10 then [digit_char n] else str_nat (n div 10) @ [digit_char (n mod 10)])"

declare str_nat.simps [simp del]

definition str_int :: "int \<Rightarrow> string" where
  "str_int i = (if i < 0 then CHR ''-'' # str_nat (nat (- i)) else str_nat (nat i))"

text \<open>\<^verbatim>\<open>sep.join(parts)\<close>\<close>

fun join :: "string \<Rightarrow> string list \<Rightarrow> string" where
  "join sep [] = []"
| "join sep [p] = p"
| "join sep (p # q # ps) = p @ sep @ join sep (q # ps)"

subsection \<open>ControlCodes and Style\<close>

definition ESC :: char where
  "ESC = CHR 0x1B"

text \<open>\<^verbatim>\<open>ControlCodes.__str__\<close>: the empty tuple is falsy, every other tuple is truthy.\<close>

definition ControlCodes_str :: "int list \<Rightarrow> string" where
  "ControlCodes_str cs =
     (if cs \<noteq> [] then [ESC, CHR ''[''] @ join '';'' (map str_int cs) @ ''m'' else [])"

text \<open>
  A \<^verbatim>\<open>StyleGroup\<close> object as a style refers to it: the identity of the object, which
  \<^verbatim>\<open>is\<close> compares, and its name. Two groups made by two calls of the constructor
  have different identities, whatever their names.
\<close>

datatype group_obj = GroupObj (gid: nat) (gname: string)

text \<open>
  A \<^verbatim>\<open>Style\<close> is a \<^verbatim>\<open>ControlCodes\<close> with an optional name and an optional
  reference to its group. For the \<^verbatim>\<open>Color\<close> subclasses the field holds the value
  of the \<^verbatim>\<open>group\<close> property.
\<close>

record style =
  name :: "string option"
  codes :: "int list"
  group :: "group_obj option"

text \<open>An object that is a \<^verbatim>\<open>ControlCodes\<close>: a plain one, or a \<^verbatim>\<open>Style\<close>.\<close>

datatype ccodes = CC "int list" | St style

fun codes_of :: "ccodes \<Rightarrow> int list" where
  "codes_of (CC cs) = cs"
| "codes_of (St s) = codes s"

text \<open>\<^verbatim>\<open>ControlCodes.__eq__\<close>, inherited by \<^verbatim>\<open>Style\<close>: the codes alone are compared.\<close>

definition style_eq :: "style \<Rightarrow> style \<Rightarrow> bool" where
  "style_eq a b = (codes a = codes b)"

text \<open>\<^verbatim>\<open>ControlCodes.__add__\<close>\<close>

definition ControlCodes_add :: "int list \<Rightarrow> ccodes \<Rightarrow> ccodes" where
  "ControlCodes_add cs other = CC (cs @ codes_of other)"

text \<open>
  \<^verbatim>\<open>Style.__add__\<close>. Reading \<^verbatim>\<open>other.group\<close> of a plain
  \<^verbatim>\<open>ControlCodes\<close> raises AttributeError; \<^verbatim>\<open>self.group is other.group\<close>
  compares the group objects (both may be \<^verbatim>\<open>None\<close>);
  \<^verbatim>\<open>self.name + "&" + other.name\<close> raises TypeError when a name is
  \<^verbatim>\<open>None\<close>.
\<close>

fun Style_add :: "style \<Rightarrow> ccodes \<Rightarrow> error + ccodes" where
  "Style_add a (CC cs) = Inl AttributeError"
| "Style_add a (St b) =
     (if map_option gid (group a) = map_option gid (group b) then
        (case (name a, name b) of
           (Some na, Some nb) \<Rightarrow>
             Inr (St \<lparr>name = Some (na @ ''&'' @ nb), codes = codes a @ codes b, group = group a\<rparr>)
         | _ \<Rightarrow> Inl TypeError)
      else Inr (CC (codes a @ codes b)))"

text \<open>\<^verbatim>\<open>a + b\<close> dispatches on the class of the left operand.\<close>

fun add :: "ccodes \<Rightarrow> ccodes \<Rightarrow> error + ccodes" where
  "add (CC cs) other = Inr (ControlCodes_add cs other)"
| "add (St a) other = Style_add a other"

subsection \<open>The catalog of style groups\<close>

text \<open>
  A \<^verbatim>\<open>StyleGroup\<close> with its own identity and name and with its reset style;
  \<^verbatim>\<open>addStyle\<close> sets the group reference of every style it stores. The tables of
  the other styles of a group are not read by the operations below and are left out.
\<close>

record style_group =
  gobj :: group_obj
  reset :: style

definition StyleGroup :: "nat \<Rightarrow> string \<Rightarrow> style \<Rightarrow> style_group" where
  "StyleGroup i n r = \<lparr>gobj = GroupObj i n, reset = r\<lparr>group := Some (GroupObj i n)\<rparr>\<rparr>"

definition Style :: "string \<Rightarrow> int list \<Rightarrow> style" where
  "Style n cs = \<lparr>name = Some n, codes = cs, group = None\<rparr>"

text \<open>
  The global \<^verbatim>\<open>groups\<close> storage, in its insertion order; the group objects are
  numbered in the order of their construction.
\<close>

definition groups :: "(string \<times> style_group) list" where
  "groups =
    [(''Back'', StyleGroup 0 ''Back'' (Style ''reset'' [49])),
     (''Fore'', StyleGroup 1 ''Fore'' (Style ''reset'' [39])),
     (''Brightness'', StyleGroup 2 ''Brightness'' (Style ''reset'' [21])),
     (''Decor'', StyleGroup 3 ''Decor'' (Style ''reset'' [23])),
     (''Underline'', StyleGroup 4 ''Underline'' (Style ''reset'' [24])),
     (''CrossedOut'', StyleGroup 5 ''CrossedOut'' (Style ''reset'' [29])),
     (''Conceal'', StyleGroup 6 ''Conceal'' (Style ''reset'' [28])),
     (''Blink'', StyleGroup 7 ''Blink'' (Style ''reset'' [25])),
     (''Frame'', StyleGroup 8 ''Frame'' (Style ''reset'' [54])),
     (''Overline'', StyleGroup 9 ''Overline'' (Style ''reset'' [55])),
     (''Ideogram'', StyleGroup 10 ''Ideogram'' (Style ''reset'' [65])),
     (''Font'', StyleGroup 11 ''Font'' (Style ''reset'' [10]))]"

text \<open>\<^verbatim>\<open>for gr in groups\<close> enumerates the keys.\<close>

definition group_names :: "string list" where
  "group_names = map fst groups"

text \<open>\<^verbatim>\<open>neutral\<close>, after \<^verbatim>\<open>neutralGroup\<close> has taken it as its style.\<close>

definition neutral :: style where
  "neutral = \<lparr>name = Some ''neutral'', codes = [], group = Some (GroupObj 12 ''Neutral'')\<rparr>"

text \<open>
  \<^verbatim>\<open>groups[gr].reset\<close>; it is only read at keys of \<^verbatim>\<open>groups\<close>, where the
  lookup succeeds.
\<close>

definition group_reset :: "string \<Rightarrow> style" where
  "group_reset gr = (case map_of groups gr of Some g \<Rightarrow> reset g | None \<Rightarrow> neutral)"

text \<open>
  \<^verbatim>\<open>BasicColor.parse(name, code)\<close>, the constructor that
  \<^verbatim>\<open>importColoramaGroup\<close> uses. The group of a \<^verbatim>\<open>Color\<close> is a property
  of its first code: \<^verbatim>\<open>groups.Back\<close> when \<^verbatim>\<open>code % 30 >= 10\<close>,
  \<^verbatim>\<open>groups.Fore\<close> otherwise. The codes of colorama's Back table give Back and
  those of its Fore table give Fore, so the assignment of the group by
  \<^verbatim>\<open>addStyle\<close> leaves the code as it is.
\<close>

definition Color_group :: "int \<Rightarrow> group_obj" where
  "Color_group code = (if code mod 30 \<ge> 10 then GroupObj 0 ''Back'' else GroupObj 1 ''Fore'')"

definition BasicColor_parse :: "string \<Rightarrow> int \<Rightarrow> style" where
  "BasicColor_parse n code = \<lparr>name = Some n, codes = [code], group = Some (Color_group code)\<rparr>"

subsection \<open>Sheet\<close>

text \<open>
  A \<^verbatim>\<open>Sheet\<close> is a \<^verbatim>\<open>Storage\<close>: its entries are the entries of the
  \<^verbatim>\<open>__dict__\<close> of the object, so that an entry is an attribute of the object as
  well, and hides a method of the same name where the method is looked up on the object.
\<close>

type_synonym sheet = "(string \<times> style) list"

text \<open>\<^verbatim>\<open>d[k] = v\<close> on an insertion-ordered dict.\<close>

fun setitem :: "('k \<times> 'v) list \<Rightarrow> 'k \<Rightarrow> 'v \<Rightarrow> ('k \<times> 'v) list" where
  "setitem [] k v = [(k, v)]"
| "setitem (p # ps) k v = (if fst p = k then (k, v) # ps else p # setitem ps k v)"

text \<open>\<^verbatim>\<open>d.update(other)\<close>\<close>

fun dict_update :: "('k \<times> 'v) list \<Rightarrow> ('k \<times> 'v) list \<Rightarrow> ('k \<times> 'v) list" where
  "dict_update d [] = d"
| "dict_update d (p # ps) = dict_update (setitem d (fst p) (snd p)) ps"

definition dict_values :: "('k \<times> 'v) list \<Rightarrow> 'v list" where
  "dict_values d = map snd d"

text \<open>\<^verbatim>\<open>Sheet(None)\<close>: every group of the catalog at its reset.\<close>

definition Sheet_None :: sheet where
  "Sheet_None = foldl (\<lambda>self gr. setitem self gr (group_reset gr)) [] group_names"

text \<open>\<^verbatim>\<open>Sheet()\<close> and \<^verbatim>\<open>Sheet({})\<close>\<close>

definition Sheet_empty :: sheet where
  "Sheet_empty = []"

text \<open>
  \<^verbatim>\<open>Sheet(style)\<close>: \<^verbatim>\<open>{new.group.name: new}\<close>, AttributeError when the
  style has no group.
\<close>

definition Sheet_of_style :: "style \<Rightarrow> error + sheet" where
  "Sheet_of_style s =
     (case group s of None \<Rightarrow> Inl AttributeError | Some g \<Rightarrow> Inr [(gname g, s)])"

text \<open>
  \<^verbatim>\<open>Sheet(sheet)\<close> for a sheet. After the copy of \<^verbatim>\<open>new.__dict__\<close>,
  \<^verbatim>\<open>Storage.__init__\<close> evaluates \<^verbatim>\<open>dict(new)\<close>, which reads the attribute
  \<^verbatim>\<open>keys\<close> of the object and calls it. An entry of the sheet under the key "keys"
  hides the method: the style stored there is called, \<^verbatim>\<open>Style.__call__\<close> builds a
  \<^verbatim>\<open>RichStr\<close> with \<^verbatim>\<open>Sheet(style)\<close>, and \<^verbatim>\<open>dict\<close> rejects the
  \<^verbatim>\<open>RichStr\<close>, which is not iterable, with TypeError.
\<close>

definition Sheet_copy :: "sheet \<Rightarrow> error + sheet" where
  "Sheet_copy new =
     (case map_of new ''keys'' of
        None \<Rightarrow> Inr new
      | Some v \<Rightarrow> (case Sheet_of_style v of Inl e \<Rightarrow> Inl e | Inr s \<Rightarrow> Inl TypeError))"

text \<open>
  \<^verbatim>\<open>Sheet.diff\<close>: one step of the loop over the catalog, and the loop. The body
  reaches the sheets through \<^verbatim>\<open>in\<close>, \<^verbatim>\<open>[]\<close> and \<^verbatim>\<open>[]=\<close> only,
  which no entry can hide.
\<close>

definition diff_step :: "sheet \<Rightarrow> sheet \<Rightarrow> sheet \<Rightarrow> string \<Rightarrow> sheet" where
  "diff_step old new patch gr =
     (let ov = (case map_of old gr of Some s \<Rightarrow> s | None \<Rightarrow> group_reset gr);
          nv = (case map_of new gr of Some s \<Rightarrow> s | None \<Rightarrow> group_reset gr);
          nv = (if style_eq ov neutral \<and> style_eq nv (group_reset gr) then neutral else nv)
      in if \<not> style_eq ov nv then setitem patch gr nv else patch)"

definition diff :: "sheet \<Rightarrow> sheet \<Rightarrow> sheet" where
  "diff old new = foldl (diff_step old new) [] group_names"

text \<open>
  \<^verbatim>\<open>Sheet.__sub__\<close>: \<^verbatim>\<open>other.diff(self)\<close> looks \<^verbatim>\<open>diff\<close> up on
  the object \<^verbatim>\<open>other\<close>. An entry of \<^verbatim>\<open>other\<close> under the key "diff" hides
  the method: the style stored there is called with \<^verbatim>\<open>self\<close> and returns a
  \<^verbatim>\<open>RichStr\<close> (after \<^verbatim>\<open>Sheet(style)\<close>) in place of a patch.
\<close>

datatype diff_result = Patch sheet | StyleCall style sheet

definition Sheet_sub :: "sheet \<Rightarrow> sheet \<Rightarrow> error + diff_result" where
  "Sheet_sub self other =
     (case map_of other ''diff'' of
        None \<Rightarrow> Inr (Patch (diff other self))
      | Some v \<Rightarrow>
          (case Sheet_of_style v of Inl e \<Rightarrow> Inl e | Inr s \<Rightarrow> Inr (StyleCall v self)))"

text \<open>
  \<^verbatim>\<open>(a - b).values()\<close>: the values of the patch, whose keys are keys of the
  catalog; a \<^verbatim>\<open>RichStr\<close> has no attribute \<^verbatim>\<open>values\<close>.
\<close>

definition sub_values :: "sheet \<Rightarrow> sheet \<Rightarrow> error + style list" where
  "sub_values a b =
     (case Sheet_sub a b of
        Inl e \<Rightarrow> Inl e
      | Inr (Patch p) \<Rightarrow> Inr (dict_values p)
      | Inr (StyleCall v s) \<Rightarrow> Inl AttributeError)"

text \<open>
  \<^verbatim>\<open>Sheet.__or__\<close>, which \<^verbatim>\<open>Sheet.__add__\<close> calls: both dicts are read
  through \<^verbatim>\<open>__dict__\<close>, and the result is built from a plain dict.
\<close>

definition Sheet_or :: "sheet \<Rightarrow> sheet \<Rightarrow> sheet" where
  "Sheet_or self other = dict_update self other"

definition Sheet_add :: "sheet \<Rightarrow> sheet \<Rightarrow> sheet" where
  "Sheet_add self other = Sheet_or self other"

text \<open>\<^verbatim>\<open>neutralSheet\<close>\<close>

definition neutralSheet :: sheet where
  "neutralSheet = map (\<lambda>gr. (gr, neutral)) group_names"

subsection \<open>RichStr\<close>

text \<open>
  A \<^verbatim>\<open>RichStr\<close> holds its sub-strings, each a \<^verbatim>\<open>RichStr\<close> or a value
  rendered by \<^verbatim>\<open>str\<close>, and its own sheet.
\<close>

datatype richstr = RichStr (subStrs: "child list") (sheet: sheet)
and child = Text string | Node richstr

datatype sheet_arg = ArgStyle style | ArgSheet sheet

text \<open>\<^verbatim>\<open>RichStr.__init__\<close>: \<^verbatim>\<open>Sheet(sheet) if sheet is not None else Sheet()\<close>.\<close>

definition RichStr_init :: "child list \<Rightarrow> sheet_arg option \<Rightarrow> error + richstr" where
  "RichStr_init args sh =
     (case sh of
        None \<Rightarrow> Inr (RichStr args Sheet_empty)
      | Some (ArgSheet s) \<Rightarrow>
          (case Sheet_copy s of Inl e \<Rightarrow> Inl e | Inr c \<Rightarrow> Inr (RichStr args c))
      | Some (ArgStyle st) \<Rightarrow>
          (case Sheet_of_style st of Inl e \<Rightarrow> Inl e | Inr s \<Rightarrow> Inr (RichStr args s)))"

text \<open>Tokens of the flat representation, and of the representation with codes.\<close>

datatype ftoken = TSheet sheet | TStr string

datatype ctoken = CCodes ccodes | CStr string

text \<open>
  \<^verbatim>\<open>RichStr.dfs\<close>; \<open>dfs_subs\<close> is its loop over \<^verbatim>\<open>self.subStrs\<close> with
  the layered sheet. The caller takes the whole list, so the first exception in the order
  of the traversal is the result.
\<close>

fun dfs :: "richstr \<Rightarrow> sheet \<Rightarrow> error + ftoken list"
and dfs_subs :: "child list \<Rightarrow> sheet \<Rightarrow> error + ftoken list" where
  "dfs (RichStr subs sh) inherited =
     (case Sheet_copy inherited of
        Inl e \<Rightarrow> Inl e
      | Inr c \<Rightarrow> dfs_subs subs (Sheet_add c sh))"
| "dfs_subs [] s = Inr []"
| "dfs_subs (Node r # cs) s =
     (case dfs r s of
        Inl e \<Rightarrow> Inl e
      | Inr ts \<Rightarrow> (case dfs_subs cs s of Inl e \<Rightarrow> Inl e | Inr us \<Rightarrow> Inr (ts @ us)))"
| "dfs_subs (Text t # cs) s =
     (case dfs_subs cs s of Inl e \<Rightarrow> Inl e | Inr us \<Rightarrow> Inr (TSheet s # TStr t # us))"

text \<open>\<^verbatim>\<open>RichStr.sheetRepr\<close>\<close>

definition sheetRepr :: "richstr \<Rightarrow> error + ftoken list" where
  "sheetRepr self =
     (let sh = Sheet_None
      in case dfs self sh of Inl e \<Rightarrow> Inl e | Inr buf \<Rightarrow> Inr (buf @ [TSheet sh]))"

text \<open>
  What a generator gives to its consumer: the items it yields, and the exception that ends
  it, if one does.
\<close>

type_synonym 'a iterator = "'a list \<times> error option"

text \<open>
  \<^verbatim>\<open>optimizeSheetsToCodes\<close>: the loop carries \<^verbatim>\<open>state\<close> and
  \<^verbatim>\<open>prevState\<close>.
\<close>

fun optimize_loop :: "sheet \<Rightarrow> sheet \<Rightarrow> sheet \<Rightarrow> ftoken list \<Rightarrow> ctoken iterator" where
  "optimize_loop initialState state prevState [] =
     (case sub_values initialState prevState of
        Inl e \<Rightarrow> ([], Some e)
      | Inr vs \<Rightarrow> (map (CCodes \<circ> St) vs, None))"
| "optimize_loop initialState state prevState (TSheet it # buf) =
     (case Sheet_copy it of
        Inl e \<Rightarrow> ([], Some e)
      | Inr state' \<Rightarrow> optimize_loop initialState state' prevState buf)"
| "optimize_loop initialState state prevState (TStr it # buf) =
     (case sub_values state prevState of
        Inl e \<Rightarrow> ([], Some e)
      | Inr vs \<Rightarrow>
          (case Sheet_copy state of
             Inl e \<Rightarrow> (map (CCodes \<circ> St) vs, Some e)
           | Inr prevState' \<Rightarrow>
               (case optimize_loop initialState state prevState' buf of
                  (rest, exc) \<Rightarrow> (map (CCodes \<circ> St) vs @ CStr it # rest, exc))))"

definition optimizeSheetsToCodes :: "ftoken list \<Rightarrow> ctoken iterator" where
  "optimizeSheetsToCodes buf =
     (let initialState = Sheet_empty
      in case Sheet_copy initialState of
           Inl e \<Rightarrow> ([], Some e)
         | Inr state \<Rightarrow>
             (case Sheet_copy state of
                Inl e \<Rightarrow> ([], Some e)
              | Inr prevState \<Rightarrow> optimize_loop initialState state prevState buf))"

text \<open>
  \<^verbatim>\<open>mergeAdjacentCodes\<close>: the loop carries \<^verbatim>\<open>accum\<close>. Its caller takes
  the whole list, so an exception of \<^verbatim>\<open>accum += it\<close>, or the one that ends the
  input, is the result.
\<close>

definition flush :: "ccodes option \<Rightarrow> ctoken list" where
  "flush accum = (case accum of None \<Rightarrow> [] | Some a \<Rightarrow> [CCodes a])"

fun merge_loop :: "ccodes option \<Rightarrow> ctoken list \<Rightarrow> error option \<Rightarrow> error + ctoken list" where
  "merge_loop accum [] exc = (case exc of Some e \<Rightarrow> Inl e | None \<Rightarrow> Inr (flush accum))"
| "merge_loop accum (CCodes it # buf) exc =
     (case accum of
        None \<Rightarrow> merge_loop (Some it) buf exc
      | Some a \<Rightarrow> (case add a it of Inl e \<Rightarrow> Inl e | Inr a' \<Rightarrow> merge_loop (Some a') buf exc))"
| "merge_loop accum (CStr it # buf) exc =
     (case merge_loop None buf exc of
        Inl e \<Rightarrow> Inl e
      | Inr rest \<Rightarrow> Inr (flush accum @ CStr it # rest))"

definition mergeAdjacentCodes :: "ctoken iterator \<Rightarrow> error + ctoken list" where
  "mergeAdjacentCodes buf = merge_loop None (fst buf) (snd buf)"

definition mergeCodes :: bool where
  "mergeCodes = True"

text \<open>\<^verbatim>\<open>list(buf)\<close>\<close>

definition list_of :: "'a iterator \<Rightarrow> error + 'a list" where
  "list_of buf = (case snd buf of Some e \<Rightarrow> Inl e | None \<Rightarrow> Inr (fst buf))"

text \<open>
  \<^verbatim>\<open>RichStr.optimizedCodeRepr\<close>, \<^verbatim>\<open>RichStr.__str__\<close> and
  \<^verbatim>\<open>RichStr.plain\<close>; \<open>codes_of_repr\<close> and \<open>str_of_repr\<close> are their parts
  after \<^verbatim>\<open>self.sheetRepr()\<close>.
\<close>

definition codes_of_repr :: "ftoken list \<Rightarrow> error + ctoken list" where
  "codes_of_repr repr =
     (let buf = optimizeSheetsToCodes repr
      in if mergeCodes then mergeAdjacentCodes buf else list_of buf)"

definition optimizedCodeRepr :: "richstr \<Rightarrow> error + ctoken list" where
  "optimizedCodeRepr self =
     (case sheetRepr self of Inl e \<Rightarrow> Inl e | Inr repr \<Rightarrow> codes_of_repr repr)"

fun ctoken_str :: "ctoken \<Rightarrow> string" where
  "ctoken_str (CCodes c) = ControlCodes_str (codes_of c)"
| "ctoken_str (CStr s) = s"

definition str_of_repr :: "ftoken list \<Rightarrow> error + string" where
  "str_of_repr repr =
     (case codes_of_repr repr of Inl e \<Rightarrow> Inl e | Inr buf \<Rightarrow> Inr (concat (map ctoken_str buf)))"

definition RichStr_str :: "richstr \<Rightarrow> error + string" where
  "RichStr_str self =
     (case optimizedCodeRepr self of Inl e \<Rightarrow> Inl e | Inr buf \<Rightarrow> Inr (concat (map ctoken_str buf)))"

fun ftoken_text :: "ftoken \<Rightarrow> string" where
  "ftoken_text (TSheet s) = []"
| "ftoken_text (TStr t) = t"

definition plain :: "richstr \<Rightarrow> error + string" where
  "plain self =
     (case sheetRepr self of Inl e \<Rightarrow> Inl e | Inr repr \<Rightarrow> Inr (concat (map ftoken_text repr)))"

subsection \<open>The styles and the tree of the reference test\<close>

text \<open>
  \<^verbatim>\<open>groups.Fore.red\<close>, \<^verbatim>\<open>groups.Back.lightgreenEx\<close>,
  \<^verbatim>\<open>groups.Fore.cyan\<close> and \<^verbatim>\<open>groups.Back.blue\<close> as
  \<^verbatim>\<open>importGroups\<close> registers them from colorama's tables
  (\<^verbatim>\<open>Fore.RED = 31\<close>, \<^verbatim>\<open>Back.LIGHTGREEN_EX = 102\<close>,
  \<^verbatim>\<open>Fore.CYAN = 36\<close>, \<^verbatim>\<open>Back.BLUE = 44\<close>).
\<close>

definition Fore_red :: style where
  "Fore_red = BasicColor_parse ''red'' 31"

definition Back_lightgreenEx :: style where
  "Back_lightgreenEx = BasicColor_parse ''lightgreenEx'' 102"

definition Fore_cyan :: style where
  "Fore_cyan = BasicColor_parse ''cyan'' 36"

definition Back_blue :: style where
  "Back_blue = BasicColor_parse ''blue'' 44"

text \<open>
  \<^verbatim>\<open>RichStr("DDD", RichStr("RRR", RichStr("GGG", sheet=green), "rrr", sheet=red), "ddd")\<close>:
  the constructors run innermost first, and the first exception ends the construction.
\<close>

definition reference_tree :: "error + richstr" where
  "reference_tree =
     (case RichStr_init [Text ''GGG''] (Some (ArgStyle Back_lightgreenEx)) of
        Inl e \<Rightarrow> Inl e
      | Inr g \<Rightarrow>
          (case RichStr_init [Text ''RRR'', Node g, Text ''rrr''] (Some (ArgStyle Fore_red)) of
             Inl e \<Rightarrow> Inl e
           | Inr r \<Rightarrow> RichStr_init [Text ''DDD'', Node r, Text ''ddd''] None))"

subsection \<open>The diff as the specification words it\<close>

text \<open>
  The value a sheet holds for a category, or the category's reset when it holds none;
  the new value after the normalisation; and the patch as the list, in catalog order, of
  the categories whose old value differs from the normalised new one.
\<close>

definition value_or_reset :: "sheet \<Rightarrow> string \<Rightarrow> style" where
  "value_or_reset s gr = (case map_of s gr of Some v \<Rightarrow> v | None \<Rightarrow> group_reset gr)"

definition normalised_new :: "sheet \<Rightarrow> sheet \<Rightarrow> string \<Rightarrow> style" where
  "normalised_new old new gr =
     (if style_eq (value_or_reset old gr) neutral
         \<and> style_eq (value_or_reset new gr) (group_reset gr)
      then neutral else value_or_reset new gr)"

definition changed :: "sheet \<Rightarrow> sheet \<Rightarrow> string \<Rightarrow> bool" where
  "changed old new gr = (\<not> style_eq (value_or_reset old gr) (normalised_new old new gr))"

definition diff_spec :: "sheet \<Rightarrow> sheet \<Rightarrow> sheet" where
  "diff_spec old new =
     map (\<lambda>gr. (gr, normalised_new old new gr)) (filter (changed old new) group_names)"

subsection \<open>Flattening as the specification words it\<close>

text \<open>
  Depth first and left to right over the children: at a text, the current effective
  snapshot (the inherited one layered with the node's own) and then the text; at a node, the
  flattening of the node with the layered snapshot as the inherited one.
\<close>

fun flatten :: "richstr \<Rightarrow> sheet \<Rightarrow> ftoken list"
and flatten_subs :: "child list \<Rightarrow> sheet \<Rightarrow> ftoken list" where
  "flatten (RichStr subs sh) inherited = flatten_subs subs (Sheet_or inherited sh)"
| "flatten_subs [] s = []"
| "flatten_subs (Node r # cs) s = flatten r s @ flatten_subs cs s"
| "flatten_subs (Text t # cs) s = TSheet s # TStr t # flatten_subs cs s"

text \<open>The keys of the sheets of a tree.\<close>

fun tree_keys :: "richstr \<Rightarrow> string list"
and subs_keys :: "child list \<Rightarrow> string list" where
  "tree_keys (RichStr subs sh) = map fst sh @ subs_keys subs"
| "subs_keys [] = []"
| "subs_keys (Node r # cs) = tree_keys r @ subs_keys cs"
| "subs_keys (Text t # cs) = subs_keys cs"

text \<open>
  A sheet none of whose entries hides a method that the rendering looks up on the object.
\<close>

definition ordinary_sheet :: "sheet \<Rightarrow> bool" where
  "ordinary_sheet s = (''keys'' \<notin> fst ` set s \<and> ''diff'' \<notin> fst ` set s)"

fun ordinary_token :: "ftoken \<Rightarrow> bool" where
  "ordinary_token (TSheet s) = ordinary_sheet s"
| "ordinary_token (TStr t) = True"

text \<open>The literal texts of a tree, depth first and left to right.\<close>

fun leaves :: "richstr \<Rightarrow> string list"
and leaves_subs :: "child list \<Rightarrow> string list" where
  "leaves (RichStr subs sh) = leaves_subs subs"
| "leaves_subs [] = []"
| "leaves_subs (Node r # cs) = leaves r @ leaves_subs cs"
| "leaves_subs (Text t # cs) = t # leaves_subs cs"

text \<open>A sequence made of pairs: a sheet, then a text.\<close>

fun sheet_text_pairs :: "ftoken list \<Rightarrow> bool" where
  "sheet_text_pairs [] = True"
| "sheet_text_pairs (TSheet s # TStr t # rest) = sheet_text_pairs rest"
| "sheet_text_pairs toks = False"

fun ftoken_texts :: "ftoken list \<Rightarrow> string list" where
  "ftoken_texts [] = []"
| "ftoken_texts (TSheet s # rest) = ftoken_texts rest"
| "ftoken_texts (TStr t # rest) = t # ftoken_texts rest"

subsection \<open>Merging as the specification words it\<close>

text \<open>
  What a token carries for the terminal: a text, or the integer codes of a control code
  object.
\<close>

datatype atoken = AText string | ACodes "int list"

fun abstract :: "ctoken \<Rightarrow> atoken" where
  "abstract (CStr s) = AText s"
| "abstract (CCodes c) = ACodes (codes_of c)"

fun is_codes :: "atoken \<Rightarrow> bool" where
  "is_codes (ACodes cs) = True"
| "is_codes (AText s) = False"

fun codes_in :: "atoken \<Rightarrow> int list" where
  "codes_in (ACodes cs) = cs"
| "codes_in (AText s) = []"

text \<open>
  Every maximal run of adjacent code tokens becomes one code token with the codes of the
  run concatenated in order; the texts stay as they are.
\<close>

function merge_runs :: "atoken list \<Rightarrow> atoken list" where
  "merge_runs [] = []"
| "merge_runs (AText s # ts) = AText s # merge_runs ts"
| "merge_runs (ACodes cs # ts) =
     ACodes (cs @ concat (map codes_in (takeWhile is_codes ts))) # merge_runs (dropWhile is_codes ts)"
  by pat_completeness auto
termination
  by (relation "measure length") (simp_all add: le_imp_less_Suc length_dropWhile_le)

fun no_adjacent_codes :: "atoken list \<Rightarrow> bool" where
  "no_adjacent_codes (ACodes cs # ACodes ds # ts) = False"
| "no_adjacent_codes (t # ts) = no_adjacent_codes ts"
| "no_adjacent_codes [] = True"

text \<open>
  What a terminal receives from a token sequence: the texts, and between them the SGR
  parameters one by one in their order.
\<close>

datatype event = Param int | Printed string

fun events :: "atoken list \<Rightarrow> event list" where
  "events [] = []"
| "events (AText s # ts) = Printed s # events ts"
| "events (ACodes cs # ts) = map Param cs @ events ts"

text \<open>A token that is a text or a style with a name.\<close>

fun named_style_token :: "ctoken \<Rightarrow> bool" where
  "named_style_token (CStr s) = True"
| "named_style_token (CCodes (St s)) = (name s \<noteq> None)"
| "named_style_token (CCodes (CC cs)) = False"

text \<open>Auxiliary notions for the proofs about the merge.\<close>

fun join_run :: "int list \<Rightarrow> atoken list \<Rightarrow> atoken list" where
  "join_run cs (ACodes ds # ts) = ACodes (cs @ ds) # ts"
| "join_run cs ts = ACodes cs # ts"

fun acc_named :: "ccodes option \<Rightarrow> bool" where
  "acc_named None = True"
| "acc_named (Some (CC cs)) = True"
| "acc_named (Some (St s)) = (name s \<noteq> None)"

text \<open>The token list of the test of the merger.\<close>

definition merger_test_data :: "ctoken list" where
  "merger_test_data =
     [CStr ''1'', CCodes (St Fore_red), CCodes (St Back_blue), CStr ''2'',
      CCodes (St Back_lightgreenEx), CStr ''3'', CCodes (St Back_blue), CStr ''4'',
      CCodes (St (group_reset ''Fore'')), CCodes (St (group_reset ''Back'')), CStr ''5'']"


subsection \<open>Removing escape sequences\<close>

text \<open>
  The pattern of the test of \<^verbatim>\<open>plain\<close>, ESC "[" then groups of digits separated by
  ";" then "m". \<open>match_params seen s\<close> reads the part after "[", where \<open>seen\<close> tells
  that the current group has a digit already, and returns what follows the match.
\<close>

definition is_digit :: "char \<Rightarrow> bool" where
  "is_digit c = (c \<in> set ''0123456789'')"

fun match_params :: "bool \<Rightarrow> string \<Rightarrow> string option" where
  "match_params seen [] = None"
| "match_params seen (c # s) =
     (if is_digit c then match_params True s
      else if seen \<and> c = CHR ''m'' then Some s
      else if seen \<and> c = CHR '';'' then match_params False s
      else None)"

fun match_code :: "string \<Rightarrow> string option" where
  "match_code (c # d # s) = (if c = ESC \<and> d = CHR ''['' then match_params False s else None)"
| "match_code s = None"

text \<open>
  \<^verbatim>\<open>re.sub(pattern, "", s)\<close>: from left to right, a match is dropped and the scan
  goes on after it; a character where no match starts is kept.
\<close>

function strip_codes :: "string \<Rightarrow> string" where
  "strip_codes [] = []"
| "strip_codes (c # s) =
     (case match_code (c # s) of Some r \<Rightarrow> strip_codes r | None \<Rightarrow> c # strip_codes s)"
  by pat_completeness auto
termination
proof (relation "measure length")
  show "wf (measure length)" by simp
next
  fix c :: char and s r :: string
  have params: "match_params seen t = Some u \<Longrightarrow> length u < length t" for seen t u
    by (induction seen t rule: match_params.induct) (auto split: if_splits)
  assume "match_code (c # s) = Some r"
  then show "(r, c # s) \<in> measure length"
    by (cases s) (auto split: if_splits dest: params)
next
  fix c :: char and s :: string
  show "(s, c # s) \<in> measure length" by simp
qed

text \<open>The styles held by the sheets of a tree.\<close>

fun tree_styles :: "richstr \<Rightarrow> style list"
and subs_styles :: "child list \<Rightarrow> style list" where
  "tree_styles (RichStr subs sh) = dict_values sh @ subs_styles subs"
| "subs_styles [] = []"
| "subs_styles (Node r # cs) = tree_styles r @ subs_styles cs"
| "subs_styles (Text t # cs) = subs_styles cs"

definition nonneg_style :: "style \<Rightarrow> bool" where
  "nonneg_style s = list_all (\<lambda>c. 0 \<le> c) (codes s)"

definition named_style :: "style \<Rightarrow> bool" where
  "named_style s = (name s \<noteq> None)"

text \<open>A token that is a text, or a style with a given property.\<close>

fun ctoken_all :: "(style \<Rightarrow> bool) \<Rightarrow> ctoken \<Rightarrow> bool" where
  "ctoken_all P (CStr s) = True"
| "ctoken_all P (CCodes (St s)) = P s"
| "ctoken_all P (CCodes (CC cs)) = False"

fun ftoken_all :: "(style \<Rightarrow> bool) \<Rightarrow> ftoken \<Rightarrow> bool" where
  "ftoken_all P (TStr s) = True"
| "ftoken_all P (TSheet sh) = list_all P (dict_values sh)"

fun ctoken_texts :: "ctoken list \<Rightarrow> string list" where
  "ctoken_texts [] = []"
| "ctoken_texts (CStr s # ts) = s # ctoken_texts ts"
| "ctoken_texts (CCodes c # ts) = ctoken_texts ts"

fun atoken_str :: "atoken \<Rightarrow> string" where
  "atoken_str (AText s) = s"
| "atoken_str (ACodes cs) = ControlCodes_str cs"

fun clean_event :: "event \<Rightarrow> bool" where
  "clean_event (Param c) = (0 \<le> c)"
| "clean_event (Printed s) = (ESC \<notin> set s)"

fun printed :: "event list \<Rightarrow> string" where
  "printed [] = []"
| "printed (Printed s # es) = s @ printed es"
| "printed (Param c # es) = printed es"

text \<open>The tree that the constructors of the reference test return.\<close>

definition the_reference :: richstr where
  "the_reference =
     RichStr
       [Text ''DDD'',
        Node (RichStr
          [Text ''RRR'', Node (RichStr [Text ''GGG''] [(''Back'', Back_lightgreenEx)]), Text ''rrr'']
          [(''Fore'', Fore_red)]),
        Text ''ddd'']
       []"

text \<open>\<^verbatim>\<open>RichStr("\x1b[0m")\<close>: a tree whose text is an escape sequence.\<close>

definition escape_text_tree :: richstr where
  "escape_text_tree = RichStr [Text [ESC, CHR ''['', CHR ''0'', CHR ''m'']] Sheet_empty"


subsection \<open>Rendering with the sheets as objects in a store\<close>

text \<open>
  Sheets are mutable objects. Here each sheet object lives at an address of a store (the
  list of the objects allocated so far), a \<^verbatim>\<open>RichStr\<close> refers to its sheet by address,
  and \<^verbatim>\<open>dfs\<close> takes the store and returns it, also when it raises. Reading an
  address that holds no object has no counterpart in the source and gives \<open>None\<close>.
\<close>

type_synonym addr = nat

type_synonym store = "sheet list"

datatype rnode = RNode (node_subs: "rchild list") (node_sheet: addr)
and rchild = RText string | RChild rnode

datatype rtoken = RSheet addr | RStr string

text \<open>A new object is allocated at the next address.\<close>

definition alloc :: "store \<Rightarrow> sheet \<Rightarrow> addr \<times> store" where
  "alloc h s = (length h, h @ [s])"

text \<open>
  \<^verbatim>\<open>Sheet(sheet)\<close>: a new object holding a copy of the dict of \<open>sheet\<close>, or the
  exception of the copy.
\<close>

definition Sheet_copy_st :: "addr \<Rightarrow> store \<Rightarrow> ((error + addr) \<times> store) option" where
  "Sheet_copy_st a h =
     (if a < length h then
        (case Sheet_copy (h ! a) of
           Inl e \<Rightarrow> Some (Inl e, h)
         | Inr s \<Rightarrow> (case alloc h s of (c, h1) \<Rightarrow> Some (Inr c, h1)))
      else None)"

text \<open>
  \<^verbatim>\<open>Sheet.__or__\<close>: \<^verbatim>\<open>tdic\<close> is a new dict, updated and wrapped in a new
  sheet object; neither operand is written.
\<close>

definition Sheet_or_st :: "addr \<Rightarrow> addr \<Rightarrow> store \<Rightarrow> (addr \<times> store) option" where
  "Sheet_or_st a b h =
     (if a < length h \<and> b < length h then Some (alloc h (dict_update (h ! a) (h ! b))) else None)"

fun dfs_st :: "rnode \<Rightarrow> addr \<Rightarrow> store \<Rightarrow> ((error + rtoken list) \<times> store) option"
and dfs_subs_st :: "rchild list \<Rightarrow> addr \<Rightarrow> store \<Rightarrow> ((error + rtoken list) \<times> store) option" where
  "dfs_st (RNode subs sh) inherited h =
     (case Sheet_copy_st inherited h of
        None \<Rightarrow> None
      | Some (Inl e, h1) \<Rightarrow> Some (Inl e, h1)
      | Some (Inr c, h1) \<Rightarrow>
          (case Sheet_or_st c sh h1 of
             None \<Rightarrow> None
           | Some (s, h2) \<Rightarrow> dfs_subs_st subs s h2))"
| "dfs_subs_st [] s h = Some (Inr [], h)"
| "dfs_subs_st (RChild r # cs) s h =
     (case dfs_st r s h of
        None \<Rightarrow> None
      | Some (Inl e, h1) \<Rightarrow> Some (Inl e, h1)
      | Some (Inr ts, h1) \<Rightarrow>
          (case dfs_subs_st cs s h1 of
             None \<Rightarrow> None
           | Some (Inl e, h2) \<Rightarrow> Some (Inl e, h2)
           | Some (Inr us, h2) \<Rightarrow> Some (Inr (ts @ us), h2)))"
| "dfs_subs_st (RText t # cs) s h =
     (case dfs_subs_st cs s h of
        None \<Rightarrow> None
      | Some (Inl e, h1) \<Rightarrow> Some (Inl e, h1)
      | Some (Inr us, h1) \<Rightarrow> Some (Inr (RSheet s # RStr t # us), h1))"

text \<open>\<^verbatim>\<open>sheetRepr\<close>: \<^verbatim>\<open>Sheet(None)\<close> is a new object, appended by reference.\<close>

definition sheetRepr_st :: "rnode \<Rightarrow> store \<Rightarrow> ((error + rtoken list) \<times> store) option" where
  "sheetRepr_st self h =
     (case alloc h Sheet_None of
        (sh, h1) \<Rightarrow>
          (case dfs_st self sh h1 of
             None \<Rightarrow> None
           | Some (Inl e, h2) \<Rightarrow> Some (Inl e, h2)
           | Some (Inr buf, h2) \<Rightarrow> Some (Inr (buf @ [RSheet sh]), h2)))"

text \<open>
  \<^verbatim>\<open>optimizeSheetsToCodes\<close> copies every sheet it receives and writes its own new
  objects only, so it is run on the contents of the sheets of the finished list.
\<close>

fun resolve :: "store \<Rightarrow> rtoken \<Rightarrow> ftoken" where
  "resolve h (RSheet a) = TSheet (h ! a)"
| "resolve h (RStr t) = TStr t"

definition str_st :: "rnode \<Rightarrow> store \<Rightarrow> ((error + string) \<times> store) option" where
  "str_st self h =
     (case sheetRepr_st self h of
        None \<Rightarrow> None
      | Some (Inl e, h1) \<Rightarrow> Some (Inl e, h1)
      | Some (Inr buf, h1) \<Rightarrow> Some (str_of_repr (map (resolve h1) buf), h1))"

text \<open>Rendering nodes one after the other, each in the store the previous one left.\<close>

fun render_all :: "rnode list \<Rightarrow> store \<Rightarrow> ((error + string) list \<times> store) option" where
  "render_all [] h = Some ([], h)"
| "render_all (r # rs) h =
     (case str_st r h of
        None \<Rightarrow> None
      | Some (s, h1) \<Rightarrow>
          (case render_all rs h1 of
             None \<Rightarrow> None
           | Some (ss, h2) \<Rightarrow> Some (s # ss, h2)))"

text \<open>
  The sheet addresses a node refers to, and the tree of values that a node denotes in a
  store.
\<close>

fun node_refs :: "rnode \<Rightarrow> addr list"
and subs_refs :: "rchild list \<Rightarrow> addr list" where
  "node_refs (RNode subs sh) = sh # subs_refs subs"
| "subs_refs [] = []"
| "subs_refs (RChild r # cs) = node_refs r @ subs_refs cs"
| "subs_refs (RText t # cs) = subs_refs cs"

definition allocated :: "store \<Rightarrow> addr list \<Rightarrow> bool" where
  "allocated h as = list_all (\<lambda>a. a < length h) as"

fun value_of :: "store \<Rightarrow> rnode \<Rightarrow> richstr"
and values_of :: "store \<Rightarrow> rchild list \<Rightarrow> child list" where
  "value_of h (RNode subs sh) = RichStr (values_of h subs) (h ! sh)"
| "values_of h [] = []"
| "values_of h (RChild r # cs) = Node (value_of h r) # values_of h cs"
| "values_of h (RText t # cs) = Text t # values_of h cs"

text \<open>The tokens of a flat representation with the sheets read from a store.\<close>

definition resolved :: "store \<Rightarrow> error + rtoken list \<Rightarrow> error + ftoken list" where
  "resolved h res = (case res of Inl e \<Rightarrow> Inl e | Inr ts \<Rightarrow> Inr (map (resolve h) ts))"

text \<open>
  The objects of \<^verbatim>\<open>testSideEffects\<close>: the sheets of the four nodes at the addresses
  0 to 3, and the nodes \<^verbatim>\<open>order[0]\<close> to \<^verbatim>\<open>order[3]\<close>.
\<close>

definition test_store :: store where
  "test_store = [[(''Back'', Back_lightgreenEx)], [(''Fore'', Fore_cyan)], [(''Fore'', Fore_red)], []]"

definition order0 :: rnode where
  "order0 = RNode [RText ''GGG''] 0"

definition order1 :: rnode where
  "order1 = RNode [RText ''CCC''] 1"

definition order2 :: rnode where
  "order2 = RNode [RText ''RRR'', RChild order0, RText ''rrr'', RChild order1, RText ''RRR''] 2"

definition order3 :: rnode where
  "order3 = RNode [RText ''DDD'', RChild order2, RText ''ddd''] 3"

section \<open>Properties\<close>

subsection \<open>Dictionaries and the diff\<close>

lemma setitem_fresh: "k \<notin> fst ` set d \<Longrightarrow> setitem d k v = d @ [(k, v)]"
  by (induction d) auto

lemma map_of_setitem: "map_of (setitem d k v) = (map_of d)(k \<mapsto> v)"
  by (induction d) (auto simp: fun_eq_iff)

lemma map_of_dict_update:
  "map_of (dict_update d e) k = (case map_of (rev e) k of Some v \<Rightarrow> Some v | None \<Rightarrow> map_of d k)"
proof (induction e arbitrary: d)
  case Nil
  then show ?case by simp
next
  case (Cons p e)
  show ?case
    by (cases p) (auto simp: Cons.IH map_of_setitem map_add_def split: option.splits)
qed

lemma foldl_setitem_fresh:
  "distinct ks \<Longrightarrow> set ks \<inter> fst ` set acc = {} \<Longrightarrow>
   foldl (\<lambda>p k. if P k then setitem p k (f k) else p) acc ks = acc @ map (\<lambda>k. (k, f k)) (filter P ks)"
proof (induction ks arbitrary: acc)
  case Nil
  then show ?case by simp
next
  case (Cons k ks)
  show ?case
  proof (cases "P k")
    case True
    from Cons.prems have fresh: "k \<notin> fst ` set acc" by auto
    from Cons.prems have "distinct ks" "set ks \<inter> fst ` set (acc @ [(k, f k)]) = {}" by auto
    from Cons.IH [OF this] True fresh show ?thesis by (simp add: setitem_fresh)
  next
    case False
    from Cons.prems have "distinct ks" "set ks \<inter> fst ` set acc = {}" by auto
    from Cons.IH [OF this] False show ?thesis by simp
  qed
qed

lemma distinct_group_names: "distinct group_names"
  by (simp add: group_names_def groups_def)

lemma diff_step_spec:
  "diff_step old new patch gr =
     (if changed old new gr then setitem patch gr (normalised_new old new gr) else patch)"
  by (simp add: diff_step_def changed_def normalised_new_def value_or_reset_def Let_def)

lemma diff_is_diff_spec: "diff old new = diff_spec old new"
proof -
  have "diff old new =
        foldl (\<lambda>p k. if changed old new k then setitem p k (normalised_new old new k) else p)
          [] group_names"
    unfolding diff_def by (rule arg_cong [where f = "\<lambda>f. foldl f [] group_names"]) (simp add: fun_eq_iff diff_step_spec)
  also have "\<dots> = [] @ map (\<lambda>k. (k, normalised_new old new k)) (filter (changed old new) group_names)"
    by (rule foldl_setitem_fresh) (simp_all add: distinct_group_names)
  finally show ?thesis by (simp add: diff_spec_def)
qed

lemma Sheet_None_eq: "Sheet_None = map (\<lambda>gr. (gr, group_reset gr)) group_names"
proof -
  have "Sheet_None = foldl (\<lambda>p k. if True then setitem p k (group_reset k) else p) [] group_names"
    by (simp add: Sheet_None_def)
  also have "\<dots> = [] @ map (\<lambda>k. (k, group_reset k)) (filter (\<lambda>k. True) group_names)"
    by (rule foldl_setitem_fresh) (simp_all add: distinct_group_names)
  finally show ?thesis by simp
qed

lemma value_or_reset_Sheet_None: "value_or_reset Sheet_None gr = group_reset gr"
  by (simp add: value_or_reset_def Sheet_None_eq map_of_map_restrict restrict_map_def comp_def)

lemma value_or_reset_empty: "value_or_reset [] gr = group_reset gr"
  by (simp add: value_or_reset_def)

lemma normalised_new_Sheet_None:
  "normalised_new s Sheet_None gr = normalised_new s [] gr"
  "normalised_new Sheet_None s gr = normalised_new [] s gr"
  by (simp_all add: normalised_new_def value_or_reset_Sheet_None value_or_reset_empty)

lemma changed_Sheet_None:
  "changed s Sheet_None = changed s []"
  "changed Sheet_None s = changed [] s"
  by (simp_all add: fun_eq_iff changed_def normalised_new_Sheet_None
      value_or_reset_Sheet_None value_or_reset_empty)


text \<open>
  C2. \<^verbatim>\<open>Sheet.diff\<close> walks the catalog in its enumeration order; with \<open>o\<close> the old
  value or the category's reset, and \<open>n\<close> the new value or the category's reset, replaced
  by the neutral style when \<open>o\<close> equals neutral and \<open>n\<close> equals the reset, the patch holds
  \<open>n\<close> for exactly the categories where \<open>o\<close> differs from it, in catalog order, and
  nothing for the others.
\<close>

theorem diff_refines_spec:
  "diff old new =
     map (\<lambda>gr. (gr, normalised_new old new gr)) (filter (changed old new) group_names)"
  using diff_is_diff_spec [of old new] by (simp only: diff_spec_def)

text \<open>
  C10. In \<^verbatim>\<open>Sheet.diff\<close> a category that a sheet does not hold counts as the reset of
  its group: for every sheet, the patch is the same against the empty sheet and against
  the sheet \<^verbatim>\<open>Sheet(None)\<close> of all resets, on either side of the diff.
\<close>

theorem diff_absent_is_reset:
  "diff s Sheet_empty = diff s Sheet_None \<and> diff Sheet_empty s = diff Sheet_None s"
  by (simp add: diff_is_diff_spec diff_spec_def changed_Sheet_None normalised_new_Sheet_None
      Sheet_empty_def)

subsection \<open>The reference scenario\<close>

text \<open>
  C1. The tree of the reference test, "DDD", then under foreground red "RRR", "GGG" on a
  light green background and "rrr", then "ddd", renders as the texts with the codes for
  red (31), light green background (102), background reset (49) and foreground reset (39)
  between them, and its plain projection is the texts alone.
\<close>

theorem reference_scenario:
  "(case reference_tree of Inl e \<Rightarrow> Inl e | Inr t \<Rightarrow> Inr (RichStr_str t, plain t)) =
     Inr (Inr (''DDD'' @ [ESC] @ ''[31m'' @ ''RRR'' @ [ESC] @ ''[102m'' @ ''GGG''
               @ [ESC] @ ''[49m'' @ ''rrr'' @ [ESC] @ ''[39m'' @ ''ddd''),
          Inr ''DDDRRRGGGrrrddd'')"
  by code_simp

subsection \<open>Rendering control codes\<close>

text \<open>
  C7 (amended). A control code sequence renders as the empty string exactly when its code
  list is empty; every non-empty code list, one of zeros included, renders as ESC, "[",
  the decimal integers joined by ";", and "m".
\<close>

theorem ControlCodes_str_empty_iff:
  "(ControlCodes_str cs = [] \<longleftrightarrow> cs = [])
   \<and> ControlCodes_str [] = []
   \<and> ControlCodes_str (c # cs) = [ESC, CHR ''[''] @ join '';'' (map str_int (c # cs)) @ ''m''"
  by (simp add: ControlCodes_str_def)

text \<open>The code list \<^verbatim>\<open>(0,)\<close> is a non-empty tuple and renders as \<^verbatim>\<open>ESC[0m\<close>.\<close>

theorem all_zero_codes_counterexample:
  "ControlCodes_str [0] = [ESC] @ ''[0m'' \<and> ControlCodes_str [0] \<noteq> []
   \<and> ControlCodes_str [0, 0] = [ESC] @ ''[0;0m''"
  by code_simp

subsection \<open>Combining styles\<close>

text \<open>
  For two styles that both have a name, \<^verbatim>\<open>a + b\<close> is, when they refer to the
  same group object, a style of that group named by both names joined with "&" whose codes
  are those of \<open>a\<close> followed by those of \<open>b\<close>; for two styles of different groups,
  named or not, it is a plain control code sequence of the concatenated codes.
\<close>

lemma add_styles:
  "(map_option gid (group a) = map_option gid (group b) \<longrightarrow>
      name a = Some na \<longrightarrow> name b = Some nb \<longrightarrow>
      add (St a) (St b)
        = Inr (St \<lparr>name = Some (na @ ''&'' @ nb), codes = codes a @ codes b, group = group a\<rparr>))
   \<and> (map_option gid (group a) \<noteq> map_option gid (group b) \<longrightarrow>
        add (St a) (St b) = Inr (CC (codes a @ codes b)))"
  by simp

lemma add_styles_of_test:
  "add (St Fore_red) (St Fore_cyan)
     = Inr (St \<lparr>name = Some ''red&cyan'', codes = [31, 36], group = Some (GroupObj 1 ''Fore'')\<rparr>)
   \<and> add (St Fore_red) (St Back_blue) = Inr (CC [31, 44])"
  by code_simp

text \<open>Two groups of one name are two objects: their styles combine to plain codes.\<close>

lemma add_styles_of_namesakes:
  "add (St \<lparr>name = Some ''a'', codes = [1], group = Some (GroupObj 20 ''X'')\<rparr>)
       (St \<lparr>name = Some ''b'', codes = [2], group = Some (GroupObj 21 ''X'')\<rparr>) = Inr (CC [1, 2])"
  by simp

text \<open>
  C8. Combining two styles of one category gives a style of that category with the codes
  of both and a name made of both names, and combining styles of different categories gives
  a plain control code sequence. The code departs from it for
  \<^verbatim>\<open>IndexedColor(None, 1) + IndexedColor(None, 2)\<close>, two styles of the group Fore
  that have no name: joining the names raises TypeError, where two styles of different groups
  without names combine.
\<close>

theorem nameless_add_raises:
  "add (St \<lparr>name = None, codes = [38, 5, 1], group = Some (GroupObj 1 ''Fore'')\<rparr>)
       (St \<lparr>name = None, codes = [38, 5, 2], group = Some (GroupObj 1 ''Fore'')\<rparr>)
     = Inl TypeError
   \<and> add (St \<lparr>name = None, codes = [38, 5, 1], group = Some (GroupObj 1 ''Fore'')\<rparr>)
         (St \<lparr>name = None, codes = [48, 5, 2], group = Some (GroupObj 0 ''Back'')\<rparr>)
     = Inr (CC [38, 5, 1, 48, 5, 2])"
  by simp

subsection \<open>The neutral sheet\<close>

lemma map_of_neutralSheet:
  "map_of neutralSheet gr = (if gr \<in> set group_names then Some neutral else None)"
  by (simp add: neutralSheet_def map_of_map_restrict restrict_map_def comp_def)

lemma value_or_reset_neutralSheet:
  "gr \<in> set group_names \<Longrightarrow> value_or_reset neutralSheet gr = neutral"
  by (simp add: value_or_reset_def map_of_neutralSheet)

lemma group_reset_not_neutral: "gr \<in> set group_names \<Longrightarrow> \<not> style_eq neutral (group_reset gr)"
  by (auto simp add: group_names_def groups_def group_reset_def style_eq_def neutral_def StyleGroup_def Style_def)

lemma map_of_rev_neutralSheet:
  "map_of (rev neutralSheet) gr = (if gr \<in> set group_names then Some neutral else None)"
  by (simp add: neutralSheet_def rev_map map_of_map_restrict restrict_map_def comp_def)

lemma not_changed_from_neutral:
  assumes "gr \<in> set group_names"
  shows "\<not> changed neutralSheet neutralSheet gr"
    and "\<not> changed neutralSheet [] gr"
    and "\<not> changed neutralSheet Sheet_None gr"
  using assms group_reset_not_neutral [OF assms]
  by (simp_all add: changed_def normalised_new_def value_or_reset_neutralSheet
      value_or_reset_Sheet_None value_or_reset_empty style_eq_def)

lemma diff_from_neutral_empty:
  "diff neutralSheet neutralSheet = []"
  "diff neutralSheet [] = []"
  "diff neutralSheet Sheet_None = []"
  by (simp_all add: diff_is_diff_spec diff_spec_def filter_empty_conv not_changed_from_neutral)

text \<open>
  In the other direction the patch is not empty: from the empty default sheet to the
  all-neutral sheet it holds the neutral style, which renders as nothing, for every category.
\<close>

lemma diff_to_neutral: "diff Sheet_empty neutralSheet = neutralSheet"
  by code_simp

text \<open>
  C4 (amended). Layering the all-neutral sheet onto a sheet \<open>s\<close> gives a sheet that holds
  the neutral style for every category of the catalog, and the value of \<open>s\<close> for every
  other key; the diff from the all-neutral sheet to the all-neutral sheet, to the empty
  default sheet \<^verbatim>\<open>Sheet()\<close> and to the sheet \<^verbatim>\<open>Sheet(None)\<close> of all
  resets is the empty patch.
\<close>

theorem neutral_layering:
  "map_of (Sheet_or s neutralSheet) gr = (if gr \<in> set group_names then Some neutral else map_of s gr)
   \<and> diff neutralSheet neutralSheet = []
   \<and> diff neutralSheet Sheet_empty = []
   \<and> diff neutralSheet Sheet_None = []"
  by (simp add: Sheet_or_def map_of_dict_update map_of_rev_neutralSheet diff_from_neutral_empty Sheet_empty_def)

text \<open>
  Layering the all-neutral sheet onto the sheet of foreground red replaces red by the
  neutral style.
\<close>

theorem neutral_layering_counterexample:
  "map_of (Sheet_or [(''Fore'', Fore_red)] neutralSheet) ''Fore'' = Some neutral
   \<and> map_of [(''Fore'', Fore_red)] ''Fore'' = Some Fore_red
   \<and> \<not> style_eq neutral Fore_red
   \<and> Sheet_or [(''Fore'', Fore_red)] neutralSheet \<noteq> [(''Fore'', Fore_red)]"
  by code_simp

subsection \<open>Flattening\<close>

lemma Sheet_copy_Inr: "Sheet_copy s = Inr c \<Longrightarrow> c = s"
  by (auto simp: Sheet_copy_def split: option.splits sum.splits)

lemma Sheet_copy_no_keys: "''keys'' \<notin> fst ` set s \<Longrightarrow> Sheet_copy s = Inr s"
  by (simp add: Sheet_copy_def map_of_eq_None_iff [THEN iffD2])

lemma setitem_keys: "fst ` set (setitem d k v) = insert k (fst ` set d)"
  by (induction d) auto

lemma dict_update_keys: "fst ` set (dict_update d e) = fst ` set d \<union> fst ` set e"
  by (induction e arbitrary: d) (auto simp: setitem_keys)

lemma dfs_flatten:
  "dfs r inh = Inr toks \<Longrightarrow> toks = flatten r inh"
  "dfs_subs cs s = Inr toks \<Longrightarrow> toks = flatten_subs cs s"
proof (induction r inh and cs s arbitrary: toks and toks rule: dfs_dfs_subs.induct)
  case (1 subs sh inherited)
  then show ?case
    by (auto simp: Sheet_add_def split: sum.splits dest!: Sheet_copy_Inr)
next
  case (2 s)
  then show ?case by simp
next
  case (3 r cs s)
  then show ?case by (auto split: sum.splits)
next
  case (4 t cs s)
  then show ?case by (auto split: sum.splits)
qed

lemma dfs_returns:
  "''keys'' \<notin> set (tree_keys r) \<Longrightarrow> ''keys'' \<notin> fst ` set inh \<Longrightarrow> \<exists>toks. dfs r inh = Inr toks"
  "''keys'' \<notin> set (subs_keys cs) \<Longrightarrow> ''keys'' \<notin> fst ` set s \<Longrightarrow> \<exists>toks. dfs_subs cs s = Inr toks"
proof (induction r inh and cs s rule: dfs_dfs_subs.induct)
  case (1 subs sh inherited)
  from 1(3) have copy: "Sheet_copy inherited = Inr inherited" by (rule Sheet_copy_no_keys)
  from 1(2,3) have "''keys'' \<notin> fst ` set (Sheet_add inherited sh)"
    by (auto simp: Sheet_add_def Sheet_or_def dict_update_keys)
  with 1(1) [OF copy] 1(2) copy show ?case by simp
next
  case (2 s)
  then show ?case by simp
next
  case (3 r cs s)
  from 3(3) have r: "''keys'' \<notin> set (tree_keys r)" and cs: "''keys'' \<notin> set (subs_keys cs)"
    by simp_all
  from 3(1) [OF r 3(4)] obtain ts where ts: "dfs r s = Inr ts" by blast
  from 3(2) [OF ts cs 3(4)] obtain us where "dfs_subs cs s = Inr us" by blast
  with ts show ?case by simp
next
  case (4 t cs s)
  then show ?case by auto
qed

lemma sheet_text_pairs_append:
  "sheet_text_pairs xs \<Longrightarrow> sheet_text_pairs (xs @ ys) = sheet_text_pairs ys"
  by (induction xs rule: sheet_text_pairs.induct) simp_all

lemma ftoken_texts_append: "ftoken_texts (xs @ ys) = ftoken_texts xs @ ftoken_texts ys"
  by (induction xs rule: ftoken_texts.induct) simp_all

lemma flatten_pairs:
  "sheet_text_pairs (flatten r inh)"
  "sheet_text_pairs (flatten_subs cs s)"
  by (induction r inh and cs s rule: flatten_flatten_subs.induct)
     (simp_all add: sheet_text_pairs_append)

lemma flatten_texts:
  "ftoken_texts (flatten r inh) = leaves r"
  "ftoken_texts (flatten_subs cs s) = leaves_subs cs"
  by (induction r inh and cs s rule: flatten_flatten_subs.induct)
     (simp_all add: ftoken_texts_append)

lemma Sheet_None_keys: "fst ` set Sheet_None = set group_names"
  by (simp add: Sheet_None_eq image_image)

lemma keys_not_group: "''keys'' \<notin> set group_names" "''diff'' \<notin> set group_names"
  by (simp_all add: group_names_def groups_def)

lemma sheetRepr_flatten:
  "sheetRepr r = Inr toks \<Longrightarrow> toks = flatten r Sheet_None @ [TSheet Sheet_None]"
  by (auto simp: sheetRepr_def Let_def split: sum.splits dest: dfs_flatten(1))

lemma sheetRepr_returns:
  "''keys'' \<notin> set (tree_keys r) \<Longrightarrow> \<exists>toks. sheetRepr r = Inr toks"
  using dfs_returns(1) [of r Sheet_None]
  by (auto simp: sheetRepr_def Let_def Sheet_None_keys keys_not_group)

text \<open>
  C3. Flattening is the depth-first, left-to-right traversal of the specification: whenever
  \<^verbatim>\<open>sheetRepr\<close> returns, its list is the flattening of the tree from the sheet
  \<^verbatim>\<open>Sheet(None)\<close>, in which every text comes right after the sheet in effect (the
  inherited sheet layered with the node's own) and a node is flattened with the layered
  sheet as its inherited one, followed by one last sheet, \<^verbatim>\<open>Sheet(None)\<close> again,
  which holds for every category its reset style. It returns for every tree none of whose
  sheets has an entry "keys". The flattening is a sequence of sheet and text pairs, and its
  texts are the leaves of the tree in order.
\<close>

theorem flattening_refines:
  "(\<forall>toks. sheetRepr r = Inr toks \<longrightarrow> toks = flatten r Sheet_None @ [TSheet Sheet_None])
   \<and> (''keys'' \<notin> set (tree_keys r) \<longrightarrow> (\<exists>toks. sheetRepr r = Inr toks))
   \<and> sheet_text_pairs (flatten r inh)
   \<and> ftoken_texts (flatten r inh) = leaves r
   \<and> Sheet_None = map (\<lambda>gr. (gr, group_reset gr)) group_names"
  using Sheet_None_eq sheetRepr_returns [of r]
  by (auto simp: flatten_pairs flatten_texts dest: sheetRepr_flatten)

theorem flattening_refines_witness:
  "''keys'' \<notin> set (tree_keys the_reference)
   \<and> sheetRepr the_reference = Inr (flatten the_reference Sheet_None @ [TSheet Sheet_None])
   \<and> ftoken_texts (flatten the_reference Sheet_None) = [''DDD'', ''RRR'', ''GGG'', ''rrr'', ''ddd'']"
proof -
  have h: "''keys'' \<notin> set (tree_keys the_reference)" by code_simp
  have l: "leaves the_reference = [''DDD'', ''RRR'', ''GGG'', ''rrr'', ''ddd'']" by code_simp
  from flattening_refines [of the_reference Sheet_None] h l show ?thesis by auto
qed

subsection \<open>Merging adjacent codes\<close>

lemma merge_runs_Codes: "merge_runs (ACodes cs # ts) = join_run cs (merge_runs ts)"
  by (cases ts rule: merge_runs.cases) simp_all

lemma join_run_twice: "join_run cs (join_run ds ts) = join_run (cs @ ds) ts"
  by (cases ts rule: merge_runs.cases) simp_all

lemma add_codes_of: "add a b = Inr c \<Longrightarrow> codes_of c = codes_of a @ codes_of b"
  by (cases a; cases b) (auto simp: ControlCodes_add_def split: if_splits option.splits)

lemma merge_loop_exception: "merge_loop accum buf (Some e) = Inr out \<Longrightarrow> False"
proof (induction accum buf "Some e" arbitrary: out rule: merge_loop.induct)
  case (1 accum)
  then show ?case by simp
next
  case (2 accum it buf)
  then show ?case by (auto split: option.splits sum.splits)
next
  case (3 accum it buf)
  then show ?case by (auto split: sum.splits)
qed

lemma merge_loop_abstract:
  "merge_loop accum buf exc = Inr out \<Longrightarrow>
   map abstract out =
     (case accum of None \<Rightarrow> merge_runs (map abstract buf)
      | Some a \<Rightarrow> join_run (codes_of a) (merge_runs (map abstract buf)))"
proof (induction accum buf exc arbitrary: out rule: merge_loop.induct)
  case (1 accum exc)
  then show ?case by (auto simp: flush_def split: option.splits)
next
  case (2 accum it buf exc)
  show ?case
  proof (cases accum)
    case None
    with 2 show ?thesis by (simp add: merge_runs_Codes del: merge_runs.simps(3))
  next
    case (Some a)
    with "2.prems" obtain a' where a': "add a it = Inr a'"
      and out: "merge_loop (Some a') buf exc = Inr out"
      by (auto split: sum.splits)
    from "2.IH"(2) [OF Some a' out] add_codes_of [OF a'] Some show ?thesis
      by (simp add: merge_runs_Codes join_run_twice del: merge_runs.simps(3))
  qed
next
  case (3 accum it buf exc)
  from "3.prems" obtain rest where rest: "merge_loop None buf exc = Inr rest"
    and out: "out = flush accum @ CStr it # rest"
    by (auto split: sum.splits)
  from "3.IH" [OF rest] out show ?case
    by (auto simp: flush_def split: option.splits)
qed

lemma events_join_run: "events (join_run cs ts) = map Param cs @ events ts"
  by (cases ts rule: merge_runs.cases) simp_all

lemma events_merge_runs: "events (merge_runs ts) = events ts"
  by (induction ts rule: events.induct)
     (simp_all add: merge_runs_Codes events_join_run del: merge_runs.simps(3))

lemma add_named:
  "acc_named (Some a) \<Longrightarrow> name s = Some n \<Longrightarrow> \<exists>a'. add a (St s) = Inr a' \<and> acc_named (Some a')"
  by (cases a) (auto simp: ControlCodes_add_def)

lemma merge_loop_named:
  "list_all named_style_token buf \<Longrightarrow> acc_named accum \<Longrightarrow> \<exists>out. merge_loop accum buf None = Inr out"
proof (induction accum buf "None :: error option" rule: merge_loop.induct)
  case (1 accum)
  then show ?case by simp
next
  case (2 accum it buf)
  from "2.prems" obtain s n where it: "it = St s" "name s = Some n"
    by (cases it) auto
  show ?case
  proof (cases accum)
    case None
    with 2 it show ?thesis by simp
  next
    case (Some a)
    with "2.prems" it add_named [of a s n] obtain a' where a': "add a it = Inr a'" "acc_named (Some a')"
      by auto
    with "2.hyps"(2) [OF Some a'(1)] "2.prems" Some show ?thesis by simp
  qed
next
  case (3 accum it buf)
  then show ?case by auto
qed

lemma no_adjacent_join_run: "no_adjacent_codes (join_run cs ts) = no_adjacent_codes ts"
  by (cases ts rule: merge_runs.cases; cases "tl ts" rule: merge_runs.cases) auto

lemma no_adjacent_merge_runs: "no_adjacent_codes (merge_runs ts)"
  by (induction ts rule: events.induct)
     (simp_all add: merge_runs_Codes no_adjacent_join_run del: merge_runs.simps(3))

text \<open>
  Whenever the merge of a token list returns, every maximal run of adjacent code tokens
  has become one token with the codes of the run in order, and the texts are as they were.
\<close>

lemma merge_returns_runs:
  assumes "mergeAdjacentCodes (buf, None) = Inr out"
  shows "map abstract out = merge_runs (map abstract buf)"
    and "no_adjacent_codes (map abstract out)"
    and "events (map abstract out) = events (map abstract buf)"
proof -
  from assms show abs: "map abstract out = merge_runs (map abstract buf)"
    using merge_loop_abstract [of None buf None out] by (simp add: mergeAdjacentCodes_def)
  then show "no_adjacent_codes (map abstract out)"
    and "events (map abstract out) = events (map abstract buf)"
    by (simp_all add: no_adjacent_merge_runs events_merge_runs)
qed

text \<open>The test of the merger: the expected list, up to the equality of the codes.\<close>

lemma merger_test:
  "map_sum id (map abstract) (mergeAdjacentCodes (merger_test_data, None)) =
     Inr [AText ''1'', ACodes [31, 44], AText ''2'', ACodes [102], AText ''3'', ACodes [44],
          AText ''4'', ACodes [39, 49], AText ''5'']"
  by code_simp

text \<open>
  C6. \<^verbatim>\<open>mergeAdjacentCodes\<close> is to replace every run of adjacent code tokens by one
  token with the codes of the run in order. The code departs from it where the run starts
  with a style: \<^verbatim>\<open>accum += it\<close> is then \<^verbatim>\<open>Style.__add__\<close>, which raises
  AttributeError when the next token is a plain control code sequence, and TypeError when
  it is a style of the same group and one of the two has no name. In the other order, a
  plain control code sequence followed by a style, the run is merged.
\<close>

theorem merge_raises:
  "mergeAdjacentCodes ([CCodes (St Fore_red), CCodes (CC [1])], None) = Inl AttributeError
   \<and> mergeAdjacentCodes ([CCodes (CC [1]), CCodes (St Fore_red)], None) = Inr [CCodes (CC [1, 31])]
   \<and> mergeAdjacentCodes
       ([CCodes (St \<lparr>name = None, codes = [38, 5, 1], group = Some (GroupObj 1 ''Fore'')\<rparr>),
         CCodes (St \<lparr>name = None, codes = [38, 5, 2], group = Some (GroupObj 1 ''Fore'')\<rparr>)], None)
       = Inl TypeError"
  by code_simp

subsection \<open>The plain projection\<close>

lemma digit_char_is_digit: "is_digit (digit_char d)"
proof -
  have "d mod 10 < length ''0123456789''" by simp
  then have "''0123456789'' ! (d mod 10) \<in> set ''0123456789''" by (rule nth_mem)
  then show ?thesis by (simp only: is_digit_def digit_char_def)
qed

lemma str_nat_digits: "str_nat n \<noteq> [] \<and> list_all is_digit (str_nat n)"
proof (induction n rule: str_nat.induct)
  case (1 n)
  show ?case
  proof (cases "n < 10")
    case True
    then show ?thesis by (subst (1 2) str_nat.simps) (simp add: digit_char_is_digit)
  next
    case False
    with 1 show ?thesis by (subst (1 2) str_nat.simps) (simp add: digit_char_is_digit)
  qed
qed

lemma match_params_digits:
  "ds \<noteq> [] \<Longrightarrow> list_all is_digit ds \<Longrightarrow> match_params seen (ds @ s) = match_params True s"
proof (induction ds arbitrary: seen)
  case Nil
  then show ?case by simp
next
  case (Cons d ds)
  then show ?case by (cases ds) simp_all
qed

lemma match_params_str_int:
  "0 \<le> c \<Longrightarrow> match_params seen (str_int c @ s) = match_params True s"
  using str_nat_digits [of "nat c"] by (simp add: str_int_def match_params_digits)

lemma not_digit_m: "\<not> is_digit CHR ''m''" "\<not> is_digit CHR '';''"
  by (simp_all add: is_digit_def)

lemma match_params_join:
  "cs \<noteq> [] \<Longrightarrow> list_all (\<lambda>c. 0 \<le> c) cs \<Longrightarrow>
   match_params seen (join '';'' (map str_int cs) @ CHR ''m'' # rest) = Some rest"
proof (induction cs arbitrary: seen)
  case Nil
  then show ?case by simp
next
  case (Cons c cs)
  show ?case
  proof (cases cs)
    case Nil
    with Cons.prems show ?thesis by (simp add: match_params_str_int not_digit_m)
  next
    case (Cons d ds)
    with Cons.prems Cons.IH [of False] show ?thesis
      by (simp add: match_params_str_int not_digit_m)
  qed
qed

lemma strip_codes_ControlCodes_str:
  "list_all (\<lambda>c. 0 \<le> c) cs \<Longrightarrow> strip_codes (ControlCodes_str cs @ rest) = strip_codes rest"
  by (cases "cs = []") (simp_all add: ControlCodes_str_def match_params_join)

lemma match_code_not_ESC: "ESC \<noteq> c \<Longrightarrow> match_code (c # s) = None"
  by (cases s) simp_all

lemma strip_codes_text:
  "ESC \<notin> set t \<Longrightarrow> strip_codes (t @ rest) = t @ strip_codes rest"
  by (induction t) (simp_all add: match_code_not_ESC)

lemma list_all_clean_codes: "list_all clean_event (map Param cs) = list_all (\<lambda>c. 0 \<le> c) cs"
  by (induction cs) simp_all

lemma printed_params: "printed (map Param cs @ es) = printed es"
  by (induction cs) simp_all

lemma strip_codes_render:
  "list_all clean_event (events ts) \<Longrightarrow>
   strip_codes (concat (map atoken_str ts)) = printed (events ts)"
proof (induction ts rule: events.induct)
  case 1
  then show ?case by simp
next
  case (2 s ts)
  then show ?case by (simp add: strip_codes_text)
next
  case (3 cs ts)
  then have "list_all (\<lambda>c. 0 \<le> c) cs" by (simp add: list_all_clean_codes)
  with 3 show ?case
    by (simp add: strip_codes_ControlCodes_str list_all_clean_codes printed_params)
qed


lemma setitem_values:
  "list_all P (dict_values d) \<Longrightarrow> P v \<Longrightarrow> list_all P (dict_values (setitem d k v))"
  by (induction d) (auto simp: dict_values_def)

lemma dict_update_values:
  "list_all P (dict_values d) \<Longrightarrow> list_all P (dict_values e) \<Longrightarrow>
   list_all P (dict_values (dict_update d e))"
proof (induction e arbitrary: d)
  case Nil
  then show ?case by simp
next
  case (Cons p e)
  from Cons.prems have "list_all P (dict_values (setitem d (fst p) (snd p)))"
    by (intro setitem_values) (simp_all add: dict_values_def)
  moreover from Cons.prems have "list_all P (dict_values e)" by (simp add: dict_values_def)
  ultimately show ?case using Cons.IH by simp
qed

lemma flatten_styles:
  "list_all P (dict_values inh) \<Longrightarrow> list_all P (tree_styles r) \<Longrightarrow>
     list_all (ftoken_all P) (flatten r inh)"
  "list_all P (dict_values s) \<Longrightarrow> list_all P (subs_styles cs) \<Longrightarrow>
     list_all (ftoken_all P) (flatten_subs cs s)"
  by (induction r inh and cs s rule: flatten_flatten_subs.induct)
     (simp_all add: Sheet_or_def dict_update_values)

lemma catalog_resets:
  "map_of groups gr = Some g \<Longrightarrow> nonneg_style (reset g) \<and> named_style (reset g)"
  by (auto simp: groups_def StyleGroup_def Style_def nonneg_style_def named_style_def
      split: if_splits)

lemma group_reset_good: "nonneg_style (group_reset gr)" "named_style (group_reset gr)"
  using catalog_resets [of gr]
  by (auto simp: group_reset_def neutral_def nonneg_style_def named_style_def split: option.splits)

lemma neutral_good: "nonneg_style neutral" "named_style neutral"
  by (simp_all add: neutral_def nonneg_style_def named_style_def)

lemma Sheet_None_values:
  "(\<And>gr. P (group_reset gr)) \<Longrightarrow> list_all P (dict_values Sheet_None)"
  by (simp add: Sheet_None_eq dict_values_def list_all_iff)

lemma value_or_reset_in:
  "(\<And>gr. P (group_reset gr)) \<Longrightarrow> list_all P (dict_values new) \<Longrightarrow> P (value_or_reset new gr)"
  by (auto simp: value_or_reset_def dict_values_def list_all_iff split: option.splits
      dest!: map_of_SomeD)

lemma diff_values:
  assumes "\<And>gr. P (group_reset gr)" and "P neutral" and "list_all P (dict_values new)"
  shows "list_all P (dict_values (diff old new))"
proof -
  have "P (normalised_new old new gr)" for gr
    using assms(2) value_or_reset_in [of P new gr, OF assms(1) assms(3)]
    by (simp add: normalised_new_def)
  then show ?thesis
    by (simp add: diff_is_diff_spec diff_spec_def dict_values_def list_all_iff)
qed

lemma sub_values_Inr: "sub_values a b = Inr vs \<Longrightarrow> vs = dict_values (diff b a)"
  by (auto simp: sub_values_def Sheet_sub_def split: sum.splits option.splits diff_result.splits)

lemma style_tokens_all: "list_all P xs \<Longrightarrow> list_all (ctoken_all P) (map (CCodes \<circ> St) xs)"
  by (induction xs) simp_all

lemma style_tokens_texts: "ctoken_texts (map (CCodes \<circ> St) xs @ ys) = ctoken_texts ys"
  by (induction xs) simp_all

lemma optimize_loop_styles:
  assumes "\<And>gr. P (group_reset gr)" and "P neutral"
  shows "list_all P (dict_values init) \<Longrightarrow> list_all P (dict_values state) \<Longrightarrow>
         list_all (ftoken_all P) toks \<Longrightarrow>
         list_all (ctoken_all P) (fst (optimize_loop init state prev toks))"
proof (induction init state prev toks rule: optimize_loop.induct)
  case (1 init state prev)
  show ?case
  proof (cases "sub_values init prev")
    case (Inl e)
    then show ?thesis by simp
  next
    case (Inr vs)
    with diff_values [of P init prev, OF assms] 1 show ?thesis
      by (auto simp: style_tokens_all dest!: sub_values_Inr)
  qed
next
  case (2 init state prev it buf)
  show ?case
  proof (cases "Sheet_copy it")
    case (Inl e)
    then show ?thesis by simp
  next
    case (Inr c)
    then have "c = it" by (rule Sheet_copy_Inr)
    with 2 Inr show ?thesis by simp
  qed
next
  case (3 init state prev it buf)
  show ?case
  proof (cases "sub_values state prev")
    case (Inl e)
    then show ?thesis by simp
  next
    case vs: (Inr vs)
    with diff_values [of P state prev, OF assms] 3(3)
    have good: "list_all (ctoken_all P) (map (CCodes \<circ> St) vs)"
      by (auto simp: style_tokens_all dest!: sub_values_Inr)
    show ?thesis
    proof (cases "Sheet_copy state")
      case (Inl e)
      with vs good show ?thesis by simp
    next
      case (Inr p)
      obtain rest exc where rest: "optimize_loop init state p buf = (rest, exc)"
        by (cases "optimize_loop init state p buf")
      from 3(1) [OF vs Inr 3(2) 3(3)] 3(4) rest have "list_all (ctoken_all P) rest"
        by simp
      with vs Inr good rest show ?thesis by simp
    qed
  qed
qed

lemma optimize_loop_texts:
  "snd (optimize_loop init state prev toks) = None \<Longrightarrow>
   ctoken_texts (fst (optimize_loop init state prev toks)) = ftoken_texts toks"
proof (induction init state prev toks rule: optimize_loop.induct)
  case (1 init state prev)
  then show ?case
    using style_tokens_texts [of _ "[]"] by (auto split: sum.splits)
next
  case (2 init state prev it buf)
  then show ?case by (auto split: sum.splits)
next
  case (3 init state prev it buf)
  from 3(2) obtain vs p where vs: "sub_values state prev = Inr vs"
    and p: "Sheet_copy state = Inr p"
    by (auto split: sum.splits)
  obtain rest exc where rest: "optimize_loop init state p buf = (rest, exc)"
    by (cases "optimize_loop init state p buf")
  with 3(2) vs p have "exc = None" by simp
  with 3(1) [OF vs p] rest have "ctoken_texts rest = ftoken_texts buf" by simp
  with vs p rest show ?case by (simp add: style_tokens_texts)
qed

lemma optimized_styles:
  assumes "\<And>gr. P (group_reset gr)" and "P neutral" and "list_all (ftoken_all P) toks"
  shows "list_all (ctoken_all P) (fst (optimizeSheetsToCodes toks))"
  using optimize_loop_styles [of P "[]" "[]" toks "[]", OF assms(1,2)] assms(3)
  by (simp add: optimizeSheetsToCodes_def Sheet_empty_def Sheet_copy_def dict_values_def)

lemma optimized_texts:
  "snd (optimizeSheetsToCodes toks) = None \<Longrightarrow>
   ctoken_texts (fst (optimizeSheetsToCodes toks)) = ftoken_texts toks"
  using optimize_loop_texts [of "[]" "[]" "[]" toks]
  by (simp add: optimizeSheetsToCodes_def Sheet_empty_def Sheet_copy_def)

lemma concat_ftoken_text: "concat (map ftoken_text ts) = concat (ftoken_texts ts)"
  by (induction ts rule: ftoken_texts.induct) simp_all

lemma events_clean:
  "list_all (ctoken_all nonneg_style) cts \<Longrightarrow> ESC \<notin> set (concat (ctoken_texts cts)) \<Longrightarrow>
   list_all clean_event (events (map abstract cts))"
proof (induction cts rule: ctoken_texts.induct)
  case 1
  then show ?case by simp
next
  case (2 s ts)
  then show ?case by simp
next
  case (3 c ts)
  then show ?case by (cases c) (simp_all add: list_all_clean_codes nonneg_style_def)
qed

lemma events_printed: "printed (events (map abstract cts)) = concat (ctoken_texts cts)"
  by (induction cts rule: ctoken_texts.induct) (simp_all add: printed_params)

lemma ctoken_str_abstract: "ctoken_str c = atoken_str (abstract c)"
  by (cases c) simp_all

lemma rendered_strip:
  assumes clean: "list_all clean_event (events (map abstract cts))"
    and out: "merge_loop None cts exc = Inr out"
  shows "strip_codes (concat (map ctoken_str out)) = concat (ctoken_texts cts)"
proof -
  from out have abs: "map abstract out = merge_runs (map abstract cts)"
    using merge_loop_abstract [of None cts exc out] by simp
  have "map ctoken_str out = map atoken_str (map abstract out)"
    by (simp add: ctoken_str_abstract)
  then have "concat (map ctoken_str out) = concat (map atoken_str (map abstract out))"
    by (rule arg_cong)
  moreover from clean abs have "list_all clean_event (events (map abstract out))"
    by (simp add: events_merge_runs)
  ultimately have "strip_codes (concat (map ctoken_str out)) = printed (events (map abstract out))"
    by (simp only: strip_codes_render)
  with abs show ?thesis by (simp add: events_merge_runs events_printed)
qed

text \<open>
  C5 (amended). For every style tree whose texts hold no ESC character and whose styles
  have no negative code: whenever the rendering \<^verbatim>\<open>str\<close> returns a string,
  \<^verbatim>\<open>plain\<close> returns that string with every match of the escape sequence pattern
  removed.
\<close>

theorem plain_is_stripped_str:
  assumes str: "RichStr_str r = Inr s"
    and texts: "ESC \<notin> set (concat (leaves r))"
    and codes: "list_all nonneg_style (tree_styles r)"
  shows "plain r = Inr (strip_codes s)"
proof -
  from str obtain repr out where repr: "sheetRepr r = Inr repr"
    and out: "mergeAdjacentCodes (optimizeSheetsToCodes repr) = Inr out"
    and s: "s = concat (map ctoken_str out)"
    by (auto simp: RichStr_str_def optimizedCodeRepr_def codes_of_repr_def mergeCodes_def
        split: sum.splits)
  let ?it = "optimizeSheetsToCodes repr"
  from out have merged: "merge_loop None (fst ?it) (snd ?it) = Inr out"
    by (simp add: mergeAdjacentCodes_def)
  then have ended: "snd ?it = None"
    using merge_loop_exception [of None "fst ?it" _ out] by (cases "snd ?it") auto
  from repr have flat: "repr = flatten r Sheet_None @ [TSheet Sheet_None]"
    by (rule sheetRepr_flatten)
  have none: "list_all nonneg_style (dict_values Sheet_None)"
    by (rule Sheet_None_values) (rule group_reset_good)
  with codes flat have "list_all (ftoken_all nonneg_style) repr"
    by (simp add: flatten_styles)
  then have "list_all (ctoken_all nonneg_style) (fst ?it)"
    by (intro optimized_styles) (simp_all add: group_reset_good neutral_good)
  moreover from flat have leaves: "ftoken_texts repr = leaves r"
    by (simp add: ftoken_texts_append flatten_texts)
  from optimized_texts [OF ended] leaves texts
  have "ESC \<notin> set (concat (ctoken_texts (fst ?it)))"
    by simp
  ultimately have "list_all clean_event (events (map abstract (fst ?it)))"
    by (rule events_clean)
  from rendered_strip [OF this merged] s ended leaves
  have "strip_codes s = concat (leaves r)"
    by (simp add: optimized_texts)
  with repr leaves show ?thesis
    by (simp add: plain_def concat_ftoken_text)
qed

lemma reference_tree_value: "reference_tree = Inr the_reference"
  by code_simp

theorem plain_is_stripped_str_witness:
  "RichStr_str the_reference
       = Inr (''DDD'' @ [ESC] @ ''[31m'' @ ''RRR'' @ [ESC] @ ''[102m'' @ ''GGG''
              @ [ESC] @ ''[49m'' @ ''rrr'' @ [ESC] @ ''[39m'' @ ''ddd'')
   \<and> ESC \<notin> set (concat (leaves the_reference))
   \<and> list_all nonneg_style (tree_styles the_reference)
   \<and> plain the_reference
       = Inr (strip_codes (''DDD'' @ [ESC] @ ''[31m'' @ ''RRR'' @ [ESC] @ ''[102m'' @ ''GGG''
              @ [ESC] @ ''[49m'' @ ''rrr'' @ [ESC] @ ''[39m'' @ ''ddd''))"
proof -
  have str: "RichStr_str the_reference
       = Inr (''DDD'' @ [ESC] @ ''[31m'' @ ''RRR'' @ [ESC] @ ''[102m'' @ ''GGG''
              @ [ESC] @ ''[49m'' @ ''rrr'' @ [ESC] @ ''[39m'' @ ''ddd'')"
    by code_simp
  have h1: "ESC \<notin> set (concat (leaves the_reference))" by code_simp
  have h2: "list_all nonneg_style (tree_styles the_reference)" by code_simp
  from plain_is_stripped_str [OF str h1 h2] str h1 h2 show ?thesis
    by (simp only: simp_thms)
qed

text \<open>
  A text that is itself an escape sequence stays in the plain projection, and is removed
  from the rendered string by the pattern.
\<close>

theorem escape_text_counterexample:
  "RichStr_str escape_text_tree = Inr [ESC, CHR ''['', CHR ''0'', CHR ''m'']
   \<and> plain escape_text_tree = Inr [ESC, CHR ''['', CHR ''0'', CHR ''m'']
   \<and> strip_codes [ESC, CHR ''['', CHR ''0'', CHR ''m''] = []"
  by code_simp

lemma ordinary_update:
  "ordinary_sheet d \<Longrightarrow> ordinary_sheet e \<Longrightarrow> ordinary_sheet (dict_update d e)"
  by (simp add: ordinary_sheet_def dict_update_keys)

lemma flatten_ordinary:
  "ordinary_sheet inh \<Longrightarrow> ''keys'' \<notin> set (tree_keys r) \<Longrightarrow> ''diff'' \<notin> set (tree_keys r) \<Longrightarrow>
     list_all ordinary_token (flatten r inh)"
  "ordinary_sheet s \<Longrightarrow> ''keys'' \<notin> set (subs_keys cs) \<Longrightarrow> ''diff'' \<notin> set (subs_keys cs) \<Longrightarrow>
     list_all ordinary_token (flatten_subs cs s)"
proof (induction r inh and cs s rule: flatten_flatten_subs.induct)
  case (1 subs sh inherited)
  from 1(2-4) have "ordinary_sheet (Sheet_or inherited sh)"
    by (auto simp: Sheet_or_def ordinary_sheet_def dict_update_keys)
  with 1 show ?case by simp
next
  case (2 s)
  then show ?case by simp
next
  case (3 r cs s)
  then show ?case by simp
next
  case (4 t cs s)
  then show ?case by simp
qed

lemma ordinary_copy: "ordinary_sheet s \<Longrightarrow> Sheet_copy s = Inr s"
  by (simp add: ordinary_sheet_def Sheet_copy_no_keys)

lemma ordinary_sub: "ordinary_sheet b \<Longrightarrow> sub_values a b = Inr (dict_values (diff b a))"
  by (simp add: ordinary_sheet_def sub_values_def Sheet_sub_def map_of_eq_None_iff [THEN iffD2])

lemma optimize_loop_ends:
  "ordinary_sheet state \<Longrightarrow> ordinary_sheet prev \<Longrightarrow> list_all ordinary_token toks \<Longrightarrow>
   snd (optimize_loop init state prev toks) = None"
proof (induction init state prev toks rule: optimize_loop.induct)
  case (1 init state prev)
  then show ?case by (simp add: ordinary_sub)
next
  case (2 init state prev it buf)
  then show ?case by (simp add: ordinary_copy)
next
  case (3 init state prev it buf)
  from 3(1) [of "dict_values (diff prev state)" state] 3(2-4)
  have "snd (optimize_loop init state state buf) = None"
    by (simp add: ordinary_sub ordinary_copy)
  with 3(2,3) show ?case
    by (cases "optimize_loop init state state buf") (simp add: ordinary_sub ordinary_copy)
qed

lemma named_tokens: "list_all (ctoken_all named_style) cts \<Longrightarrow> list_all named_style_token cts"
proof (induction cts)
  case Nil
  then show ?case by simp
next
  case (Cons c cts)
  then show ?case by (cases c rule: named_style_token.cases) (simp_all add: named_style_def)
qed

text \<open>
  The rendering returns a string for every tree whose styles all have a name and whose
  sheets have no entry under "keys" or "diff".
\<close>

lemma str_returns:
  assumes keys: "''keys'' \<notin> set (tree_keys r)" and diff: "''diff'' \<notin> set (tree_keys r)"
    and named: "list_all named_style (tree_styles r)"
  shows "\<exists>s. RichStr_str r = Inr s"
proof -
  from sheetRepr_returns [OF keys] obtain repr where repr: "sheetRepr r = Inr repr" by blast
  then have flat: "repr = flatten r Sheet_None @ [TSheet Sheet_None]"
    by (rule sheetRepr_flatten)
  have none: "ordinary_sheet Sheet_None"
    by (simp add: ordinary_sheet_def Sheet_None_keys keys_not_group)
  with flat keys diff have "list_all ordinary_token repr"
    by (simp add: flatten_ordinary)
  then have ended: "snd (optimizeSheetsToCodes repr) = None"
    using optimize_loop_ends [of "[]" "[]" repr "[]"]
    by (simp add: optimizeSheetsToCodes_def Sheet_empty_def Sheet_copy_def ordinary_sheet_def)
  have "list_all named_style (dict_values Sheet_None)"
    by (rule Sheet_None_values) (rule group_reset_good)
  with named flat have "list_all (ftoken_all named_style) repr"
    by (simp add: flatten_styles)
  then have "list_all (ctoken_all named_style) (fst (optimizeSheetsToCodes repr))"
    by (intro optimized_styles) (simp_all add: group_reset_good neutral_good)
  then have "list_all named_style_token (fst (optimizeSheetsToCodes repr))"
    by (rule named_tokens)
  then obtain out where "merge_loop None (fst (optimizeSheetsToCodes repr)) None = Inr out"
    using merge_loop_named [of _ None] by auto
  with ended repr show ?thesis
    by (simp add: RichStr_str_def optimizedCodeRepr_def codes_of_repr_def mergeCodes_def
        mergeAdjacentCodes_def)
qed

text \<open>
  A sheet with an entry under "diff" hides the method \<^verbatim>\<open>diff\<close> at the closing
  patch, and one with an entry under "keys" makes the copy of the sheet fail.
\<close>

lemma shadowed_methods:
  "RichStr_str (RichStr [Text ''x''] [(''diff'', Fore_red)]) = Inl AttributeError"
  "RichStr_str (RichStr [Text ''x''] [(''keys'', Fore_red)]) = Inl TypeError"
  "plain (RichStr [Node (RichStr [Text ''x''] [])] [(''keys'', Fore_red)]) = Inl TypeError"
  by code_simp+

subsection \<open>Rendering and the sheets of the tree\<close>

lemma allocated_append: "allocated h as \<Longrightarrow> allocated (h @ new) as"
  by (auto simp: allocated_def list_all_iff)

lemma value_of_append:
  "allocated h (node_refs r) \<Longrightarrow> value_of (h @ new) r = value_of h r"
  "allocated h (subs_refs cs) \<Longrightarrow> values_of (h @ new) cs = values_of h cs"
  by (induction r and cs rule: node_refs_subs_refs.induct)
     (simp_all add: allocated_def nth_append)

lemma dfs_st_refines:
  "allocated h (node_refs r) \<Longrightarrow> inh < length h \<Longrightarrow>
     \<exists>res new. dfs_st r inh h = Some (res, h @ new)
       \<and> (\<forall>ext. resolved (h @ new @ ext) res = dfs (value_of h r) (h ! inh))"
  "allocated h (subs_refs cs) \<Longrightarrow> s < length h \<Longrightarrow>
     \<exists>res new. dfs_subs_st cs s h = Some (res, h @ new)
       \<and> (\<forall>ext. resolved (h @ new @ ext) res = dfs_subs (values_of h cs) (h ! s))"
proof (induction r and cs arbitrary: h inh and h s rule: node_refs_subs_refs.induct)
  case (1 subs sh)
  from 1(2) have sh: "sh < length h" and subs: "allocated h (subs_refs subs)"
    by (simp_all add: allocated_def)
  show ?case
  proof (cases "Sheet_copy (h ! inh)")
    case (Inl e)
    with 1(3) have "dfs_st (RNode subs sh) inh h = Some (Inl e, h @ [])"
      by (simp add: Sheet_copy_st_def)
    moreover from Inl have "resolved (h @ [] @ ext) (Inl e) = dfs (value_of h (RNode subs sh)) (h ! inh)" for ext
      by (simp add: resolved_def)
    ultimately show ?thesis by blast
  next
    case (Inr c)
    then have c: "c = h ! inh" by (rule Sheet_copy_Inr)
    let ?lay = "dict_update (h ! inh) (h ! sh)"
    let ?h2 = "h @ [h ! inh, ?lay]"
    from subs have "allocated ?h2 (subs_refs subs)" by (rule allocated_append)
    moreover have "Suc (length h) < length ?h2" by simp
    ultimately obtain res new where run: "dfs_subs_st subs (Suc (length h)) ?h2 = Some (res, ?h2 @ new)"
      and res: "\<And>ext. resolved (?h2 @ new @ ext) res
                   = dfs_subs (values_of ?h2 subs) (?h2 ! Suc (length h))"
      using 1(1) [of ?h2 "Suc (length h)"] by blast
    have vals: "values_of ?h2 subs = values_of h subs"
      using subs by (rule value_of_append(2))
    have lay: "?h2 ! Suc (length h) = ?lay"
      by (simp add: nth_append)
    from 1(3) sh run Inr c
    have "dfs_st (RNode subs sh) inh h = Some (res, h @ ([h ! inh, ?lay] @ new))"
      by (simp add: Sheet_copy_st_def Sheet_or_st_def alloc_def nth_append)
    moreover have "resolved (h @ ([h ! inh, ?lay] @ new) @ ext) res
                    = dfs (value_of h (RNode subs sh)) (h ! inh)" for ext
      using res [of ext] vals lay Inr c
      by (simp add: Sheet_add_def Sheet_or_def)
    ultimately show ?thesis by blast
  qed
next
  case 2
  have "dfs_subs_st [] s h = Some (Inr [], h @ [])" by simp
  moreover have "resolved (h @ [] @ ext) (Inr []) = dfs_subs (values_of h []) (h ! s)" for ext
    by (simp add: resolved_def)
  ultimately show ?case by blast
next
  case (3 r cs)
  from 3(3) have r: "allocated h (node_refs r)" and cs: "allocated h (subs_refs cs)"
    by (simp_all add: allocated_def)
  from 3(1) [OF r 3(4)] obtain res1 n1 where run1: "dfs_st r s h = Some (res1, h @ n1)"
    and res1: "\<And>ext. resolved (h @ n1 @ ext) res1 = dfs (value_of h r) (h ! s)"
    by blast
  show ?case
  proof (cases res1)
    case (Inl e)
    with run1 have "dfs_subs_st (RChild r # cs) s h = Some (Inl e, h @ n1)" by simp
    moreover from res1 [of "[]"] Inl have "dfs (value_of h r) (h ! s) = Inl e"
      by (simp add: resolved_def)
    then have "resolved (h @ n1 @ ext) (Inl e) = dfs_subs (values_of h (RChild r # cs)) (h ! s)" for ext
      by (simp add: resolved_def)
    ultimately show ?thesis by blast
  next
    case ts: (Inr ts)
    from cs have "allocated (h @ n1) (subs_refs cs)" by (rule allocated_append)
    moreover from 3(4) have "s < length (h @ n1)" by simp
    ultimately obtain res2 n2 where run2: "dfs_subs_st cs s (h @ n1) = Some (res2, (h @ n1) @ n2)"
      and res2: "\<And>ext. resolved ((h @ n1) @ n2 @ ext) res2
                    = dfs_subs (values_of (h @ n1) cs) ((h @ n1) ! s)"
      using 3(2) [of "h @ n1" s] by blast
    have vals: "values_of (h @ n1) cs = values_of h cs"
      using cs by (rule value_of_append(2))
    let ?res = "case res2 of Inl e \<Rightarrow> Inl e | Inr us \<Rightarrow> Inr (ts @ us)"
    from run1 run2 ts have "dfs_subs_st (RChild r # cs) s h = Some (?res, h @ (n1 @ n2))"
      by (simp split: sum.splits)
    moreover have "resolved (h @ (n1 @ n2) @ ext) ?res
                    = dfs_subs (values_of h (RChild r # cs)) (h ! s)" for ext
      using res1 [of "n2 @ ext"] res2 [of ext] vals 3(4) ts
      by (auto simp: resolved_def nth_append split: sum.splits)
    ultimately show ?thesis by blast
  qed
next
  case (4 t cs)
  from 4(2) have cs: "allocated h (subs_refs cs)" by simp
  from 4(1) [OF cs 4(3)] obtain res new where run: "dfs_subs_st cs s h = Some (res, h @ new)"
    and res: "\<And>ext. resolved (h @ new @ ext) res = dfs_subs (values_of h cs) (h ! s)"
    by blast
  let ?res = "case res of Inl e \<Rightarrow> Inl e | Inr us \<Rightarrow> Inr (RSheet s # RStr t # us)"
  from run have "dfs_subs_st (RText t # cs) s h = Some (?res, h @ new)"
    by (simp split: sum.splits)
  moreover have "resolved (h @ new @ ext) ?res
                  = dfs_subs (values_of h (RText t # cs)) (h ! s)" for ext
    using res [of ext] 4(3) by (auto simp: resolved_def nth_append split: sum.splits)
  ultimately show ?case by blast
qed

lemma str_of_repr_sheetRepr:
  "RichStr_str v = (case sheetRepr v of Inl e \<Rightarrow> Inl e | Inr repr \<Rightarrow> str_of_repr repr)"
  by (simp add: str_of_repr_def RichStr_str_def optimizedCodeRepr_def split: sum.splits)

lemma sheetRepr_st_refines:
  assumes "allocated h (node_refs r)"
  shows "\<exists>res new. sheetRepr_st r h = Some (res, h @ new)
           \<and> resolved (h @ new) res = sheetRepr (value_of h r)"
proof -
  let ?h1 = "h @ [Sheet_None]"
  from assms have "allocated ?h1 (node_refs r)" by (rule allocated_append)
  moreover have "length h < length ?h1" by simp
  ultimately obtain res new where run: "dfs_st r (length h) ?h1 = Some (res, ?h1 @ new)"
    and res: "\<And>ext. resolved (?h1 @ new @ ext) res = dfs (value_of ?h1 r) (?h1 ! length h)"
    using dfs_st_refines(1) [of ?h1 r "length h"] by blast
  let ?res = "case res of Inl e \<Rightarrow> Inl e | Inr buf \<Rightarrow> Inr (buf @ [RSheet (length h)])"
  from run have "sheetRepr_st r h = Some (?res, h @ ([Sheet_None] @ new))"
    by (simp add: sheetRepr_st_def alloc_def split: sum.splits)
  moreover have "resolved (h @ ([Sheet_None] @ new)) ?res = sheetRepr (value_of h r)"
    using res [of "[]"] value_of_append(1) [OF assms, of "[Sheet_None]"]
    by (auto simp: sheetRepr_def resolved_def nth_append split: sum.splits)
  ultimately show ?thesis by blast
qed

lemma str_st_value:
  assumes "allocated h (node_refs r)"
  shows "\<exists>new. str_st r h = Some (RichStr_str (value_of h r), h @ new)"
proof -
  from sheetRepr_st_refines [OF assms] obtain res new
    where "sheetRepr_st r h = Some (res, h @ new)"
      and "resolved (h @ new) res = sheetRepr (value_of h r)"
    by blast
  then have "str_st r h = Some (RichStr_str (value_of h r), h @ new)"
    by (auto simp: str_st_def str_of_repr_sheetRepr resolved_def split: sum.splits)
  then show ?thesis by blast
qed

text \<open>
  C9. Rendering does not write to the sheets of the tree. For nodes whose sheets are
  objects of a store, rendered one after the other in any order and any number of times,
  each in the store its predecessors left: every rendering gives the result (the string, or
  the exception) that the node, read in the initial store, gives by itself, and the final
  store is the initial one followed by newly allocated objects, so that no sheet of an
  ancestor, of a sibling or of the node itself has changed. The four nodes of the test of
  side effects are an instance, in every order.
\<close>

theorem rendering_leaves_sheets:
  assumes "list_all (\<lambda>r. allocated h (node_refs r)) rs"
  shows "\<exists>new. render_all rs h = Some (map (\<lambda>r. RichStr_str (value_of h r)) rs, h @ new)"
  using assms
proof (induction rs arbitrary: h)
  case Nil
  then show ?case by simp
next
  case (Cons r rs)
  from Cons.prems have r: "allocated h (node_refs r)"
    and rs: "list_all (\<lambda>r. allocated h (node_refs r)) rs"
    by simp_all
  from str_st_value [OF r] obtain n1
    where run1: "str_st r h = Some (RichStr_str (value_of h r), h @ n1)"
    by blast
  from rs have rs1: "list_all (\<lambda>r. allocated (h @ n1) (node_refs r)) rs"
    by (simp add: list_all_iff allocated_append)
  from Cons.IH [OF rs1] obtain n2
    where run2: "render_all rs (h @ n1)
                  = Some (map (\<lambda>r. RichStr_str (value_of (h @ n1) r)) rs, (h @ n1) @ n2)"
    by blast
  from rs have "map (\<lambda>r. RichStr_str (value_of (h @ n1) r)) rs
                 = map (\<lambda>r. RichStr_str (value_of h r)) rs"
    by (simp add: list_all_iff value_of_append(1))
  with run1 run2 have "render_all (r # rs) h
      = Some (map (\<lambda>r. RichStr_str (value_of h r)) (r # rs), h @ (n1 @ n2))"
    by simp
  then show ?case by blast
qed

theorem rendering_leaves_sheets_witness:
  "list_all (\<lambda>r. allocated test_store (node_refs r)) [order3, order0, order2, order1]
   \<and> (\<exists>new. render_all [order3, order0, order2, order1] test_store
        = Some ([Inr (''DDD'' @ [ESC] @ ''[31mRRR'' @ [ESC] @ ''[102mGGG'' @ [ESC] @ ''[49mrrr''
                      @ [ESC] @ ''[36mCCC'' @ [ESC] @ ''[31mRRR'' @ [ESC] @ ''[39mddd''),
                 Inr ([ESC] @ ''[102mGGG'' @ [ESC] @ ''[49m''),
                 Inr ([ESC] @ ''[31mRRR'' @ [ESC] @ ''[102mGGG'' @ [ESC] @ ''[49mrrr''
                      @ [ESC] @ ''[36mCCC'' @ [ESC] @ ''[31mRRR'' @ [ESC] @ ''[39m''),
                 Inr ([ESC] @ ''[36mCCC'' @ [ESC] @ ''[39m'')],
                test_store @ new))"
proof -
  have h: "list_all (\<lambda>r. allocated test_store (node_refs r)) [order3, order0, order2, order1]"
    by code_simp
  have v: "map (\<lambda>r. RichStr_str (value_of test_store r)) [order3, order0, order2, order1]
      = [Inr (''DDD'' @ [ESC] @ ''[31mRRR'' @ [ESC] @ ''[102mGGG'' @ [ESC] @ ''[49mrrr''
                      @ [ESC] @ ''[36mCCC'' @ [ESC] @ ''[31mRRR'' @ [ESC] @ ''[39mddd''),
         Inr ([ESC] @ ''[102mGGG'' @ [ESC] @ ''[49m''),
         Inr ([ESC] @ ''[31mRRR'' @ [ESC] @ ''[102mGGG'' @ [ESC] @ ''[49mrrr''
                      @ [ESC] @ ''[36mCCC'' @ [ESC] @ ''[31mRRR'' @ [ESC] @ ''[39m''),
         Inr ([ESC] @ ''[36mCCC'' @ [ESC] @ ''[39m'')]"
    by code_simp
  from rendering_leaves_sheets [OF h] obtain new
    where "render_all [order3, order0, order2, order1] test_store
            = Some (map (\<lambda>r. RichStr_str (value_of test_store r)) [order3, order0, order2, order1],
                    test_store @ new)"
    by blast
  with v h show ?thesis by (simp only: simp_thms) blast
qed

end
